theory Spec2Isabelle
  imports Main "HOL-Library.Word"
begin

unbundle bit_operations_syntax

section \<open>The RL78 machine state seen by mulsi3.S\<close>

text \<open>
  The RL78 has four register banks of four 16-bit register pairs each (AX, BC, DE, HL);
  the bank that the names \<open>ax\<close> and \<open>bc\<close> refer to is selected by \<open>sel rbN\<close>.
  Of the program status word only the carry and the zero flag are kept: they are the only
  flags the routines test. The stack is byte addressed through the 16-bit stack pointer.
  The register banks are a component of their own: the routines reach them by name only,
  and the stack is taken not to lie over the memory-mapped registers.
\<close>

datatype bank = RB0 | RB1 | RB2 | RB3

datatype rp = AX | BC | DE | HL

type_synonym loc = "bank \<times> rp"

record state =
  rbs :: bank
  regs :: "loc \<Rightarrow> 16 word"
  cy :: bool
  z :: bool
  sp :: "16 word"
  mem :: "16 word \<Rightarrow> 8 word"

text \<open>
  Modelled from the spec: the header vregs.h, which gives the addresses behind the names
  \<open>r8\<close>, \<open>r10\<close>, \<open>r16\<close>, \<open>r18\<close>, \<open>r_0\<close> and \<open>r_2\<close>, is not among the sources and the
  specification is silent about it. The names are the memory-mapped register pairs that
  the comments of mulsi3.S give them: \<open>r8\<close> is AX of bank 1 and \<open>r10\<close> is BC of bank 1
  (``movw r10, ax ; BC.1'', ``R8 += AX * BC''), \<open>r16\<close> is AX of bank 2 and \<open>r18\<close> is BC
  of bank 2 (``res is in AX.2 and AX.1''), \<open>r_0\<close> and \<open>r_2\<close> are AX and BC of bank 0.
\<close>

definition r_0 :: loc where "r_0 = (RB0, AX)"
definition r_2 :: loc where "r_2 = (RB0, BC)"
definition r8 :: loc where "r8 = (RB1, AX)"
definition r10 :: loc where "r10 = (RB1, BC)"
definition r16 :: loc where "r16 = (RB2, AX)"
definition r18 :: loc where "r18 = (RB2, BC)"

subsection \<open>Operands\<close>

text \<open>
  An operand is a register pair of the selected bank, a memory-mapped register named by
  its address, an immediate, or a stack slot \<open>[sp+k]\<close> (a little-endian word).
\<close>

datatype opnd = Rp rp | Saddr loc | Imm "16 word" | SpRel "16 word"

definition load16 :: "(16 word \<Rightarrow> 8 word) \<Rightarrow> 16 word \<Rightarrow> 16 word" where
  "load16 m a = word_cat (m (a + 1)) (m a)"

fun rd :: "opnd \<Rightarrow> state \<Rightarrow> 16 word" where
  "rd (Rp r) s = regs s (rbs s, r)"
| "rd (Saddr l) s = regs s l"
| "rd (Imm v) s = v"
| "rd (SpRel k) s = load16 (mem s) (sp s + k)"

text \<open>The routines only ever write registers; stores to the stack are push and call.\<close>

fun wr :: "opnd \<Rightarrow> 16 word \<Rightarrow> state \<Rightarrow> state" where
  "wr (Rp r) v s = s\<lparr>regs := (regs s)((rbs s, r) := v)\<rparr>"
| "wr (Saddr l) v s = s\<lparr>regs := (regs s)(l := v)\<rparr>"
| "wr (Imm _) v s = s"
| "wr (SpRel _) v s = s"

subsection \<open>Instructions\<close>

definition sel :: "bank \<Rightarrow> state \<Rightarrow> state" where
  "sel b s = s\<lparr>rbs := b\<rparr>"

definition movw :: "opnd \<Rightarrow> opnd \<Rightarrow> state \<Rightarrow> state" where
  "movw dst src s = wr dst (rd src s) s"

definition clrw :: "opnd \<Rightarrow> state \<Rightarrow> state" where
  "clrw dst s = wr dst 0 s"

text \<open>\<open>xchw\<close>, \<open>movw\<close>, \<open>clrw\<close>, \<open>incw\<close> and \<open>sel\<close> leave the flags alone.\<close>

definition xchw :: "opnd \<Rightarrow> opnd \<Rightarrow> state \<Rightarrow> state" where
  "xchw a b s = wr b (rd a s) (wr a (rd b s) s)"

definition incw :: "opnd \<Rightarrow> state \<Rightarrow> state" where
  "incw dst s = wr dst (rd dst s + 1) s"

text \<open>
  \<open>addw\<close> sets CY on a carry out of bit 15, \<open>subw\<close> and \<open>cmpw\<close> set it on a borrow;
  all three set Z when the 16-bit result is zero. \<open>cmpw\<close> discards the difference.
\<close>

definition addw :: "opnd \<Rightarrow> opnd \<Rightarrow> state \<Rightarrow> state" where
  "addw dst src s =
     (let a = rd dst s; b = rd src s; r = a + b
      in (wr dst r s)\<lparr>cy := (2 ^ 16 \<le> unat a + unat b), z := (r = 0)\<rparr>)"

definition subw :: "opnd \<Rightarrow> opnd \<Rightarrow> state \<Rightarrow> state" where
  "subw dst src s =
     (let a = rd dst s; b = rd src s; r = a - b
      in (wr dst r s)\<lparr>cy := (unat a < unat b), z := (r = 0)\<rparr>)"

definition cmpw :: "opnd \<Rightarrow> opnd \<Rightarrow> state \<Rightarrow> state" where
  "cmpw dst src s =
     (let a = rd dst s; b = rd src s
      in s\<lparr>cy := (unat a < unat b), z := (a - b = 0)\<rparr>)"

text \<open>
  The shifts by one only change CY: \<open>shrw\<close> moves bit 0 into it, \<open>shlw\<close> bit 15;
  \<open>rolwc\<close> rotates left through CY.
\<close>

definition shrw1 :: "opnd \<Rightarrow> state \<Rightarrow> state" where
  "shrw1 dst s = (let a = rd dst s in (wr dst (drop_bit 1 a) s)\<lparr>cy := bit a 0\<rparr>)"

definition shlw1 :: "opnd \<Rightarrow> state \<Rightarrow> state" where
  "shlw1 dst s = (let a = rd dst s in (wr dst (push_bit 1 a) s)\<lparr>cy := bit a 15\<rparr>)"

definition rolwc1 :: "opnd \<Rightarrow> state \<Rightarrow> state" where
  "rolwc1 dst s =
     (let a = rd dst s
      in (wr dst (push_bit 1 a + (if cy s then 1 else 0)) s)\<lparr>cy := bit a 15\<rparr>)"

text \<open>
  \<open>push\<close> stores the high byte at \<open>sp-1\<close> and the low byte at \<open>sp-2\<close>; \<open>pop\<close> reads
  them back. \<open>call\<close> stores the 20-bit return address in the three bytes from \<open>sp-4\<close>
  and lowers the stack pointer by four; \<open>ret\<close> raises it by four again. The transfer of
  control itself is the function application of the embedding, so the return address is
  only a value written to the stack; it is a parameter of the calling routine.
\<close>

definition push :: "rp \<Rightarrow> state \<Rightarrow> state" where
  "push r s =
     (let v = rd (Rp r) s
      in s\<lparr>sp := sp s - 2,
           mem := (mem s)(sp s - 1 := ucast (drop_bit 8 v), sp s - 2 := ucast v)\<rparr>)"

definition pop :: "rp \<Rightarrow> state \<Rightarrow> state" where
  "pop r s = (wr (Rp r) (load16 (mem s) (sp s)) s)\<lparr>sp := sp s + 2\<rparr>"

definition call :: "20 word \<Rightarrow> (state \<Rightarrow> state) \<Rightarrow> state \<Rightarrow> state" where
  "call ra f s =
     f (s\<lparr>sp := sp s - 4,
          mem := (mem s)(sp s - 2 := ucast (drop_bit 16 ra),
                         sp s - 3 := ucast (drop_bit 8 ra),
                         sp s - 4 := ucast ra)\<rparr>)"

definition ret :: "state \<Rightarrow> state" where
  "ret s = s\<lparr>sp := sp s + 4\<rparr>"

text \<open>The conditional skips run the next instruction unless the flag says to skip it.\<close>

definition skz :: "(state \<Rightarrow> state) \<Rightarrow> state \<Rightarrow> state" where
  "skz i s = (if z s then s else i s)"

definition skc :: "(state \<Rightarrow> state) \<Rightarrow> state \<Rightarrow> state" where
  "skc i s = (if cy s then s else i s)"

definition sknc :: "(state \<Rightarrow> state) \<Rightarrow> state \<Rightarrow> state" where
  "sknc i s = (if cy s then i s else s)"

text \<open>A straight-line block is its instructions run in order.\<close>

definition run :: "(state \<Rightarrow> state) list \<Rightarrow> state \<Rightarrow> state" where
  "run is s = fold (\<lambda>i. i) is s"

section \<open>The routines of mulsi3.S\<close>

subsection \<open>\<open>___mulhi3\<close> and \<open>.Lmul_hi\<close>: R8 += AX * BC\<close>

definition Lmul_hi_done :: "state \<Rightarrow> state" where
  "Lmul_hi_done s = ret s"

text \<open>
  The labels \<open>.Lmul_hi_top\<close>, \<open>.Lmul_hi_no_add\<close> and \<open>.Lmul_hi_loop\<close> (lines 181 to 197);
  a taken branch is the call of the label's function.
\<close>

function Lmul_hi_top :: "state \<Rightarrow> state"
  and Lmul_hi_no_add :: "state \<Rightarrow> state"
  and Lmul_hi_loop :: "state \<Rightarrow> state" where
  "Lmul_hi_top s = Lmul_hi_no_add (run [sel RB1, addw (Rp AX) (Saddr r_2), sel RB0] s)"
| "Lmul_hi_no_add s = Lmul_hi_loop (shlw1 (Rp BC) s)"
| "Lmul_hi_loop s =
     (let s = shrw1 (Rp AX) s in
      if cy s then Lmul_hi_top s
      else let s = cmpw (Rp AX) (Imm 0) s in
      if z s then Lmul_hi_done s
      else let s = run [shlw1 (Rp BC), shrw1 (Rp AX)] s in
      if cy s then Lmul_hi_top s
      else let s = cmpw (Rp AX) (Imm 0) s in
      if \<not> z s then Lmul_hi_no_add s
      else Lmul_hi_done s)"
  by pat_completeness auto

text \<open>\<open>.Lmul_hi\<close> (lines 175 to 179): the smaller factor drives the loop.\<close>

definition Lmul_hi :: "state \<Rightarrow> state" where
  "Lmul_hi s = Lmul_hi_loop (run [cmpw (Rp AX) (Rp BC), skc (xchw (Rp AX) (Rp BC))] s)"

text \<open>\<open>___mulhi3\<close> (lines 168 to 172) falls through into \<open>.Lmul_hi\<close>.\<close>

definition mulhi3 :: "state \<Rightarrow> state" where
  "mulhi3 s =
     Lmul_hi (run [movw (Saddr r8) (Imm 0),
                   movw (Rp AX) (SpRel 6),
                   movw (Rp BC) (Rp AX),
                   movw (Rp AX) (SpRel 4)] s)"

subsection \<open>\<open>___mulsi3\<close>\<close>

text \<open>
  Lines 59 to 75 and lines 77 to 93 are the same code at different stack offsets: the
  word at \<open>[sp+hi]\<close> is the high word of one operand, the word at \<open>[sp+lo]\<close> the low
  word of the other, and their product is added to R8. A high word of zero adds nothing,
  a high word of \<open>0xffff\<close> subtracts the low word, a low word of zero skips the call.
\<close>

definition cross_term :: "20 word \<Rightarrow> 16 word \<Rightarrow> 16 word \<Rightarrow> state \<Rightarrow> state" where
  "cross_term ra hi lo s =
     (let s = run [movw (Rp AX) (SpRel hi), cmpw (Rp AX) (Imm 0)] s in
      if z s then s
      else let s = cmpw (Rp AX) (Imm 0xffff) s in
      if \<not> z s then
        run [movw (Rp BC) (Rp AX),
             movw (Rp AX) (SpRel lo),
             cmpw (Rp AX) (Imm 0),
             skz (call ra Lmul_hi)] s
      else
        run [movw (Rp AX) (SpRel lo),
             sel RB1,
             subw (Rp AX) (Saddr r_0),
             sel RB0] s)"

text \<open>
  One shift-and-add step of the 16x16=32 product (lines 121 to 134, and again lines 137
  to 150): the multiplier in AX of bank 0 loses its low bit; if the bit was set, the
  32-bit multiplicand (BC of bank 0 above R10) is added to the 32-bit result (R16 above
  R8); the multiplicand is doubled; Z tells whether the multiplier is used up.
\<close>

definition Lmul_hisi_step :: "state \<Rightarrow> state" where
  "Lmul_hisi_step s =
     (let s = shrw1 (Rp AX) s;
          s = (if \<not> cy s then s
               else run [sel RB1,
                         addw (Rp AX) (Rp BC),
                         sel RB2,
                         sknc (incw (Rp AX)),
                         addw (Rp AX) (Saddr r_2)] s)
      in run [sel RB1,
              shlw1 (Rp BC),
              sel RB0,
              rolwc1 (Rp BC),
              cmpw (Rp AX) (Imm 0)] s)"

text \<open>\<open>.Lmul_hisi_done\<close> (lines 153 to 163).\<close>

definition Lmul_hisi_done :: "state \<Rightarrow> state" where
  "Lmul_hisi_done s =
     run [movw (Rp AX) (Saddr r16),
          movw (Saddr r10) (Rp AX),
          sel RB2,
          pop BC,
          pop AX,
          sel RB0,
          ret] s"

text \<open>\<open>.Lmul_hisi_loop\<close> (lines 120 to 151), unrolled twice as in the source.\<close>

function Lmul_hisi_loop :: "state \<Rightarrow> state" where
  "Lmul_hisi_loop s =
     (let s = Lmul_hisi_step s in
      if z s then Lmul_hisi_done s
      else let s = Lmul_hisi_step s in
      if \<not> z s then Lmul_hisi_loop s
      else Lmul_hisi_done s)"
  by pat_completeness auto

text \<open>
  \<open>.Lmul_hisi_top\<close> (line 118) and what precedes it: the prologue (lines 50 to 57), the
  two cross terms, the move of their sum to R16 (lines 95 to 98) and the ordering of the
  low words (lines 106 to 114). The two return addresses are those of the two calls.
\<close>

definition mulsi3_setup :: "20 word \<Rightarrow> 20 word \<Rightarrow> state \<Rightarrow> state" where
  "mulsi3_setup ra1 ra2 s =
     (let s = run [sel RB2,
                   push AX,
                   push BC,
                   sel RB0,
                   clrw (Rp AX),
                   movw (Saddr r8) (Rp AX),
                   movw (Saddr r16) (Rp AX),
                   cross_term ra1 14 8,
                   cross_term ra2 10 12,
                   movw (Rp AX) (Saddr r8),
                   movw (Saddr r16) (Rp AX),
                   clrw (Rp AX),
                   movw (Saddr r8) (Rp AX),
                   movw (Rp AX) (SpRel 8),
                   movw (Saddr r10) (Rp AX),
                   movw (Rp AX) (SpRel 12),
                   cmpw (Rp AX) (Saddr r10)] s;
          s = (if cy s then s
               else run [movw (Rp BC) (Saddr r10),
                         movw (Saddr r10) (Rp AX),
                         movw (Rp AX) (Rp BC)] s)
      in movw (Rp BC) (Imm 0) s)"

definition mulsi3 :: "20 word \<Rightarrow> 20 word \<Rightarrow> state \<Rightarrow> state" where
  "mulsi3 ra1 ra2 s = Lmul_hisi_loop (mulsi3_setup ra1 ra2 s)"

text \<open>
  The arguments as the callers pass them, read from the stack of the entry state, and
  the 32-bit result in R8..R11 (R8 the low word, R10 the high word).
\<close>

definition load32 :: "(16 word \<Rightarrow> 8 word) \<Rightarrow> 16 word \<Rightarrow> 32 word" where
  "load32 m a = word_cat (load16 m (a + 2)) (load16 m a)"

definition arg_a :: "state \<Rightarrow> 32 word" where
  "arg_a s = load32 (mem s) (sp s + 4)"

definition arg_b :: "state \<Rightarrow> 32 word" where
  "arg_b s = load32 (mem s) (sp s + 8)"

definition res32 :: "state \<Rightarrow> 32 word" where
  "res32 s = word_cat (regs s r10) (regs s r8)"

text \<open>
  The instructions between \<open>.Lmul_hi_top\<close> and \<open>.Lmul_hi_loop\<close> (lines 182 to 186), and
  one pass of the \<open>.Lmul_hi\<close> loop that does not leave it: the multiplier loses its low
  bit, a set bit adds the multiplicand to R8, and the multiplicand is doubled. The pass
  that leaves the loop is a shift that finds neither a carry nor a bit left.
\<close>

definition hi_add :: "state \<Rightarrow> state" where
  "hi_add s = shlw1 (Rp BC) (sel RB0 (addw (Rp AX) (Saddr r_2) (sel RB1 s)))"

definition hi_iter :: "state \<Rightarrow> state" where
  "hi_iter s =
     (let s1 = shrw1 (Rp AX) s
      in if cy s1 then hi_add s1 else shlw1 (Rp BC) (cmpw (Rp AX) (Imm 0) s1))"

definition hi_exit :: "state \<Rightarrow> state" where
  "hi_exit s = ret (cmpw (Rp AX) (Imm 0) (shrw1 (Rp AX) s))"

text \<open>
  The three labels of the \<open>.Lmul_hi\<close> loop share one termination order; these two
  projections read the state and the label off an argument of the mutual recursion.
\<close>

definition lab_state :: "state + state + state \<Rightarrow> state" where
  "lab_state x = (case x of Inl s \<Rightarrow> s | Inr (Inl s) \<Rightarrow> s | Inr (Inr s) \<Rightarrow> s)"

definition lab_rank :: "state + state + state \<Rightarrow> nat" where
  "lab_rank x = (case x of Inl s \<Rightarrow> 2 | Inr (Inl s) \<Rightarrow> 1 | Inr (Inr s) \<Rightarrow> 0)"

text \<open>
  The set-up of \<open>___mulsi3\<close> in three parts, for the proofs: the prologue (lines 50 to
  57), the two cross terms, and the rest up to \<open>.Lmul_hisi_loop\<close> (lines 95 to 118).
\<close>

definition prologue :: "state \<Rightarrow> state" where
  "prologue s = run [sel RB2, push AX, push BC, sel RB0, clrw (Rp AX),
                     movw (Saddr r8) (Rp AX), movw (Saddr r16) (Rp AX)] s"

definition order_lows :: "state \<Rightarrow> state" where
  "order_lows s =
     (let s = run [movw (Rp AX) (Saddr r8), movw (Saddr r16) (Rp AX), clrw (Rp AX),
                   movw (Saddr r8) (Rp AX), movw (Rp AX) (SpRel 8), movw (Saddr r10) (Rp AX),
                   movw (Rp AX) (SpRel 12), cmpw (Rp AX) (Saddr r10)] s;
          s = (if cy s then s
               else run [movw (Rp BC) (Saddr r10), movw (Saddr r10) (Rp AX),
                         movw (Rp AX) (Rp BC)] s)
      in movw (Rp BC) (Imm 0) s)"

text \<open>
  A state in which \<open>___mulsi3\<close> has just been called with the arguments \<open>a\<close> and \<open>b\<close>:
  bank 0 selected, the return address (here zero) at \<open>[sp]\<close>, the arguments above it.
\<close>

definition call_frame :: "32 word \<Rightarrow> 32 word \<Rightarrow> state" where
  "call_frame a b =
     \<lparr>rbs = RB0, regs = (\<lambda>_. 0), cy = False, z = False, sp = 0x1000,
      mem = (\<lambda>_. 0)
        (0x1004 := ucast a, 0x1005 := ucast (drop_bit 8 a),
         0x1006 := ucast (drop_bit 16 a), 0x1007 := ucast (drop_bit 24 a),
         0x1008 := ucast b, 0x1009 := ucast (drop_bit 8 b),
         0x100A := ucast (drop_bit 16 b), 0x100B := ucast (drop_bit 24 b))\<rparr>"

section \<open>The two testsuite fixtures\<close>

text \<open>
  Both fixtures are C functions over arrays. What C leaves undefined is an error value of
  the model: an access outside the allocated cells, and the decrement of \<open>INT_MIN\<close>.
\<close>

datatype c_error = Out_of_bounds | Signed_overflow

subsection \<open>\<open>f1\<close> of neon-vshl-imm-1.c\<close>

text \<open>
  \<^verbatim>\<open>void f1(int n, int x[], int y[]) { int i; for (i = 0; i < n; ++i) y[i] = x[i] << 3; }\<close>

  The two arrays are pointers into one heap of \<open>int\<close> cells, so that they may overlap;
  \<open>x\<close> and \<open>y\<close> are the indices of their first cells. The heap also keeps the
  addresses stored to, oldest first: this is how the order of the stores is observed.
  \<open>n\<close> and \<open>i\<close> are 32-bit and compared as signed. The shift is the one GCC
  compiles: the bits shifted out of the 32-bit value are lost.
\<close>

record heap =
  cells :: "nat \<rightharpoonup> 32 word"
  stores :: "nat list"

definition load_int :: "heap \<Rightarrow> nat \<Rightarrow> c_error + 32 word" where
  "load_int h a = (case cells h a of None \<Rightarrow> Inl Out_of_bounds | Some v \<Rightarrow> Inr v)"

definition store_int :: "heap \<Rightarrow> nat \<Rightarrow> 32 word \<Rightarrow> c_error + heap" where
  "store_int h a v =
     (case cells h a of
        None \<Rightarrow> Inl Out_of_bounds
      | Some _ \<Rightarrow> Inr (h\<lparr>cells := (cells h)(a \<mapsto> v), stores := stores h @ [a]\<rparr>))"

function f1_loop :: "32 word \<Rightarrow> 32 word \<Rightarrow> nat \<Rightarrow> nat \<Rightarrow> heap \<Rightarrow> c_error + heap" where
  "f1_loop i n x y h =
     (if sint i < sint n then
        (case load_int h (x + nat (sint i)) of
           Inl e \<Rightarrow> Inl e
         | Inr v \<Rightarrow>
             (case store_int h (y + nat (sint i)) (push_bit 3 v) of
                Inl e \<Rightarrow> Inl e
              | Inr h' \<Rightarrow> f1_loop (i + 1) n x y h'))
      else Inr h)"
  by pat_completeness auto

definition f1 :: "32 word \<Rightarrow> nat \<Rightarrow> nat \<Rightarrow> heap \<Rightarrow> c_error + heap" where
  "f1 n x y h = f1_loop 0 n x y h"

text \<open>The heap that \<open>k\<close> rounds of the loop leave behind, for the proofs.\<close>

definition f1_after :: "nat \<Rightarrow> nat \<Rightarrow> nat \<Rightarrow> heap \<Rightarrow> heap" where
  "f1_after k x y h =
     h\<lparr>cells := (\<lambda>a. if y \<le> a \<and> a < y + k
                      then Some (push_bit 3 (the (cells h (x + (a - y)))))
                      else cells h a),
       stores := stores h @ map (\<lambda>i. y + i) [0..<k]\<rparr>"

subsection \<open>\<open>test_func_00\<close> of the PR target/50749 fixture\<close>

text \<open>
  \<^verbatim>\<open>float test_func_00 (float* p, int c) { float r = 0; do { r += *p++; } while (--c); return r; }\<close>

  Floating-point arithmetic is not modelled: the type of floats, their addition and their
  zero are parameters. The array is the list of the floats from \<open>p\<close> on and the pointer
  an index into it. The loop returns the locals \<open>r\<close>, \<open>p\<close> and \<open>c\<close> as they are when
  it is left; the function returns \<open>r\<close>.
\<close>

function test_func_00_loop ::
    "('f \<Rightarrow> 'f \<Rightarrow> 'f) \<Rightarrow> 'f list \<Rightarrow> 'f \<Rightarrow> nat \<Rightarrow> 32 word \<Rightarrow> c_error + ('f \<times> nat \<times> 32 word)" where
  "test_func_00_loop fadd p r i c =
     (if length p \<le> i then Inl Out_of_bounds
      else let r = fadd r (p ! i); i = i + 1 in
        if sint c = - (2 ^ 31) then Inl Signed_overflow
        else let c = c - 1 in
          if c \<noteq> 0 then test_func_00_loop fadd p r i c
          else Inr (r, i, c))"
  by pat_completeness auto

definition test_func_00 :: "('f \<Rightarrow> 'f \<Rightarrow> 'f) \<Rightarrow> 'f \<Rightarrow> 'f list \<Rightarrow> 32 word \<Rightarrow> c_error + 'f" where
  "test_func_00 fadd zero p c =
     (case test_func_00_loop fadd p zero 0 c of Inl e \<Rightarrow> Inl e | Inr (r, i, c') \<Rightarrow> Inr r)"

section \<open>Termination of the loops\<close>

lemma run_simps [simp]: "run [] s = s" "run (i # is) s = run is (i s)"
  by (simp_all add: run_def)

lemma unat_drop_bit_div: "unat (drop_bit n (a::'a::len word)) = unat a div 2 ^ n"
  unfolding unat_drop_bit_eq by (rule drop_bit_eq_div)

lemma drop_bit_less: "a \<noteq> 0 \<Longrightarrow> 0 < n \<Longrightarrow> unat (drop_bit n (a::'a::len word)) < unat a"
proof -
  assume "a \<noteq> 0" and "0 < n"
  then have "0 < unat a" and "(1::nat) < 2 ^ n"
    using one_less_power [of "2::nat" n] by (simp_all add: unat_gt_0)
  then show ?thesis unfolding unat_drop_bit_div by (rule div_less_dividend[rotated])
qed

termination Lmul_hi_top
  apply (relation "measures [\<lambda>x. if rbs (lab_state x) = RB0 then 0 else 1,
                             \<lambda>x. unat (regs (lab_state x) (rbs (lab_state x), AX)),
                             lab_rank]")
  apply (auto simp: lab_state_def lab_rank_def sel_def addw_def shlw1_def shrw1_def cmpw_def Let_def r_2_def
      intro!: drop_bit_less)
  done

lemma step_rbs: "rbs (Lmul_hisi_step s) = RB0"
  by (simp add: Lmul_hisi_step_def Let_def sel_def addw_def shlw1_def shrw1_def cmpw_def rolwc1_def sknc_def incw_def)

lemma step_z: "z (Lmul_hisi_step s) = (regs (Lmul_hisi_step s) (RB0, AX) = 0)"
  by (simp add: Lmul_hisi_step_def Let_def sel_def addw_def shlw1_def shrw1_def cmpw_def rolwc1_def sknc_def incw_def)

lemma step_ax: "rbs s = RB0 \<Longrightarrow> regs (Lmul_hisi_step s) (RB0, AX) = drop_bit 1 (regs s (RB0, AX))"
  by (simp add: Lmul_hisi_step_def Let_def sel_def addw_def shlw1_def shrw1_def cmpw_def rolwc1_def sknc_def incw_def r_2_def)

termination Lmul_hisi_loop
proof (relation "measure (\<lambda>s. if rbs s = RB0 then unat (regs s (RB0, AX)) else 2 ^ 16)")
  fix s s1 s2 :: state
  assume s1: "s1 = Lmul_hisi_step s" and nz: "\<not> z s1" and s2: "s2 = Lmul_hisi_step s1"
  have b1: "rbs s1 = RB0" and b2: "rbs s2 = RB0"
    by (simp_all add: s1 s2 step_rbs)
  from nz have a1: "regs s1 (RB0, AX) \<noteq> 0"
    by (simp add: s1 step_z)
  have a2: "unat (regs s2 (RB0, AX)) < unat (regs s1 (RB0, AX))"
    using a1 by (simp add: s2 step_ax b1 drop_bit_less del: drop_bit_Suc)
  have "unat (regs s1 (RB0, AX)) \<le> (if rbs s = RB0 then unat (regs s (RB0, AX)) else 2 ^ 16)"
  proof (cases "rbs s = RB0")
    case True
    then show ?thesis
      by (simp add: s1 step_ax unat_drop_bit_div del: drop_bit_Suc)
  next
    case False
    then show ?thesis
      using unsigned_less [of "regs s1 (RB0, AX)", where ?'a = nat] by simp
  qed
  with a2 show "(s2, s) \<in> measure (\<lambda>s. if rbs s = RB0 then unat (regs s (RB0, AX)) else 2 ^ 16)"
    by (simp add: b2)
qed simp

section \<open>Word arithmetic: two 16-bit halves of a 32-bit value\<close>

lemma cat32_eq: "(word_cat (h::16 word) (l::16 word) :: 32 word) = 65536 * ucast h + ucast l"
  by (simp add: word_cat_eq push_bit_eq_mult)

lemma ucast_add16:
  "(ucast ((a::16 word) + b) :: 32 word) = ucast a + ucast b - (if 2 ^ 16 \<le> unat a + unat b then 65536 else 0)"
proof -
  have ab: "unat a < 65536" "unat b < 65536"
    using unsigned_less [of a, where ?'a = nat] unsigned_less [of b, where ?'a = nat] by simp_all
  show ?thesis
  proof (cases "2 ^ 16 \<le> unat a + unat b")
    case True
    then have "unat (a + b) = unat a + unat b - 65536"
      using ab by (simp add: unat_word_ariths mod_if)
    then have "unat (a + b) + 65536 = unat a + unat b" using True by simp
    then have "(of_nat (unat (a + b) + 65536) :: 32 word) = of_nat (unat a + unat b)" by simp
    then show ?thesis using True by (simp add: algebra_simps)
  next
    case False
    then have "unat (a + b) = unat a + unat b"
      using ab by (simp add: unat_word_ariths)
    then have "(of_nat (unat (a + b)) :: 32 word) = of_nat (unat a + unat b)" by simp
    then show ?thesis using False by simp
  qed
qed

lemma hi_mod: "(65536 :: 32 word) * of_nat (n mod 65536) = 65536 * of_nat n"
proof -
  have "n = 65536 * (n div 65536) + n mod 65536" by simp
  then have "(of_nat n :: 32 word) = of_nat (65536 * (n div 65536) + n mod 65536)" by simp
  then have "(of_nat n :: 32 word) = 65536 * of_nat (n div 65536) + of_nat (n mod 65536)"
    by (simp only: of_nat_add of_nat_mult of_nat_numeral)
  then have "(65536 :: 32 word) * of_nat n = 65536 * 65536 * of_nat (n div 65536) + 65536 * of_nat (n mod 65536)"
    by (simp only: distrib_left mult.assoc)
  also have "(65536 :: 32 word) * 65536 = 0" by simp
  finally show ?thesis by simp
qed

lemma ucast_of_nat_unat: "(ucast (a::16 word) :: 32 word) = of_nat (unat a)"
  by simp

lemma hi_ucast_add: "(65536 :: 32 word) * ucast ((a::16 word) + b) = 65536 * ucast a + 65536 * ucast b"
proof -
  have "(65536 :: 32 word) * ucast (a + b) = 65536 * of_nat ((unat a + unat b) mod 65536)"
    unfolding ucast_of_nat_unat by (simp add: unat_word_ariths)
  also have "\<dots> = 65536 * of_nat (unat a + unat b)" by (rule hi_mod)
  finally show ?thesis by (simp add: algebra_simps)
qed

lemma hi_ucast_mult: "(65536 :: 32 word) * ucast ((a::16 word) * b) = 65536 * (ucast a * ucast b)"
proof -
  have "(65536 :: 32 word) * ucast (a * b) = 65536 * of_nat ((unat a * unat b) mod 65536)"
    unfolding ucast_of_nat_unat by (simp add: unat_word_ariths)
  also have "\<dots> = 65536 * of_nat (unat a * unat b)" by (rule hi_mod)
  finally show ?thesis by (simp add: algebra_simps)
qed

lemma add_carry32:
  "(word_cat ((h1::16 word) + (if 2 ^ 16 \<le> unat l1 + unat l2 then 1 else 0) + h2) ((l1::16 word) + l2) :: 32 word)
     = word_cat h1 l1 + word_cat h2 l2"
proof -
  define c :: "16 word" where "c = (if 2 ^ 16 \<le> unat l1 + unat l2 then 1 else 0)"
  have 1: "(65536 :: 32 word) * ucast (h1 + c + h2) = 65536 * ucast h1 + 65536 * ucast c + 65536 * ucast h2"
    by (simp only: hi_ucast_add)
  have 2: "(65536 :: 32 word) * ucast c = (if 2 ^ 16 \<le> unat l1 + unat l2 then 65536 else 0)"
    by (simp add: c_def)
  have "(word_cat (h1 + c + h2) (l1 + l2) :: 32 word) = word_cat h1 l1 + word_cat h2 l2"
    unfolding cat32_eq 1 2 ucast_add16 [of l1 l2] by simp
  then show ?thesis unfolding c_def .
qed

lemma bit15_carry: "bit (l::16 word) 15 \<longleftrightarrow> 2 ^ 16 \<le> unat l + unat l"
proof -
  have "\<not> bit l 15 \<longleftrightarrow> drop_bit 15 l = 0"
    using drop_bit_eq_zero_iff_not_bit_last [of l] by simp
  also have "\<dots> \<longleftrightarrow> unat (drop_bit 15 l) = 0"
    by (simp only: unat_eq_zero)
  also have "\<dots> \<longleftrightarrow> unat l div 2 ^ 15 = 0"
    by (simp only: unat_drop_bit_div)
  also have "\<dots> \<longleftrightarrow> unat l < 2 ^ 15"
    by (simp only: div_eq_0_iff) simp
  finally show ?thesis by auto
qed

lemma shl32:
  "(word_cat (push_bit 1 (h::16 word) + (if bit l 15 then 1 else 0)) (push_bit 1 (l::16 word)) :: 32 word)
     = 2 * word_cat h l"
proof -
  have "(word_cat (h + (if 2 ^ 16 \<le> unat l + unat l then 1 else 0) + h) (l + l) :: 32 word) = word_cat h l + word_cat h l"
    by (rule add_carry32)
  then show ?thesis
    by (simp add: push_bit_eq_mult mult_2_right bit15_carry add.commute add.left_commute)
qed

section \<open>The 16x16=16 multiply \<open>.Lmul_hi\<close>\<close>

declare Lmul_hi_loop.simps [simp del] Lmul_hisi_loop.simps [simp del]

lemmas instr_defs = sel_def movw_def clrw_def xchw_def incw_def addw_def subw_def cmpw_def
  shrw1_def shlw1_def rolwc1_def push_def pop_def call_def ret_def skz_def skc_def sknc_def

lemma word_lsb_decomp: "(a::'a::len word) = 2 * drop_bit 1 a + (if bit a 0 then 1 else 0)"
  using div_mult_mod_eq [of a 2]
  by (cases "odd a") (simp_all add: drop_bit_eq_div bit_0 mod_2_eq_odd mult.commute del: drop_bit_Suc)

lemma Lmul_hi_loop_unfold:
  "Lmul_hi_loop s =
     (let s1 = shrw1 (Rp AX) s;
          s2 = cmpw (Rp AX) (Imm 0) s1;
          s3 = shrw1 (Rp AX) (shlw1 (Rp BC) s2);
          s4 = cmpw (Rp AX) (Imm 0) s3
      in if cy s1 then Lmul_hi_loop (hi_add s1)
         else if z s2 then ret s2
         else if cy s3 then Lmul_hi_loop (hi_add s3)
         else if \<not> z s4 then Lmul_hi_loop (shlw1 (Rp BC) s4)
         else ret s4)"
  by (subst Lmul_hi_loop.simps) (simp add: Let_def Lmul_hi_done_def hi_add_def)

lemma Lmul_hi_loop_spec:
  "rbs s = RB0 \<Longrightarrow>
   rbs (Lmul_hi_loop s) = RB0 \<and> sp (Lmul_hi_loop s) = sp s + 4 \<and> mem (Lmul_hi_loop s) = mem s \<and>
   regs (Lmul_hi_loop s) r8 = regs s r8 + regs s (RB0, AX) * regs s (RB0, BC) \<and>
   (\<forall>l. l \<noteq> (RB0, AX) \<and> l \<noteq> (RB0, BC) \<and> l \<noteq> r8 \<longrightarrow> regs (Lmul_hi_loop s) l = regs s l)"
proof (induction "unat (regs s (RB0, AX))" arbitrary: s rule: less_induct)
  case less
  note b0 = \<open>rbs s = RB0\<close>
  define a where "a = regs s (RB0, AX)"
  define b where "b = regs s (RB0, BC)"
  define a1 where "a1 = drop_bit 1 a"
  define a2 where "a2 = drop_bit 1 a1"
  have da: "a = 2 * a1 + (if bit a 0 then 1 else 0)"
    unfolding a1_def by (rule word_lsb_decomp)
  have da1: "a1 = 2 * a2 + (if bit a1 0 then 1 else 0)"
    unfolding a2_def by (rule word_lsb_decomp)
  have lt1: "a \<noteq> 0 \<Longrightarrow> unat a1 < unat a"
    unfolding a1_def by (rule drop_bit_less) simp_all
  have lt2: "a1 \<noteq> 0 \<Longrightarrow> unat a2 < unat a"
  proof -
    assume n: "a1 \<noteq> 0"
    then have "unat a2 < unat a1" unfolding a2_def by (rule drop_bit_less) simp
    moreover have "unat a1 \<le> unat a" by (simp add: a1_def unat_drop_bit_div)
    ultimately show ?thesis by simp
  qed
  define s1 where "s1 = shrw1 (Rp AX) s"
  define s2 where "s2 = cmpw (Rp AX) (Imm 0) s1"
  define s3 where "s3 = shrw1 (Rp AX) (shlw1 (Rp BC) s2)"
  define s4 where "s4 = cmpw (Rp AX) (Imm 0) s3"
  have eq: "Lmul_hi_loop s =
     (if cy s1 then Lmul_hi_loop (hi_add s1)
      else if z s2 then ret s2
      else if cy s3 then Lmul_hi_loop (hi_add s3)
      else if \<not> z s4 then Lmul_hi_loop (shlw1 (Rp BC) s4)
      else ret s4)"
    unfolding s1_def s2_def s3_def s4_def
    by (rule trans [OF Lmul_hi_loop_unfold]) (simp only: Let_def)
  have fl: "cy s1 = bit a 0" "z s2 = (a1 = 0)" "cy s3 = bit a1 0" "z s4 = (a2 = 0)"
    using b0 by (simp_all add: s1_def s2_def s3_def s4_def instr_defs Let_def a_def a1_def a2_def
        del: drop_bit_Suc)
  let ?frame = "\<lambda>t. \<forall>l. l \<noteq> (RB0, AX) \<and> l \<noteq> (RB0, BC) \<and> l \<noteq> r8 \<longrightarrow> regs t l = regs s l"
  have t1: "rbs (hi_add s1) = RB0" "sp (hi_add s1) = sp s" "mem (hi_add s1) = mem s"
    "regs (hi_add s1) (RB0, AX) = a1" "regs (hi_add s1) (RB0, BC) = 2 * b"
    "regs (hi_add s1) r8 = regs s r8 + b" "?frame (hi_add s1)"
    using b0 by (simp_all add: hi_add_def s1_def instr_defs Let_def r8_def r_2_def a_def b_def a1_def
        push_bit_eq_mult del: drop_bit_Suc)
  have t2: "rbs (ret s2) = RB0" "sp (ret s2) = sp s + 4" "mem (ret s2) = mem s"
    "regs (ret s2) r8 = regs s r8" "?frame (ret s2)"
    using b0 by (simp_all add: s1_def s2_def instr_defs Let_def r8_def)
  have t3: "rbs (hi_add s3) = RB0" "sp (hi_add s3) = sp s" "mem (hi_add s3) = mem s"
    "regs (hi_add s3) (RB0, AX) = a2" "regs (hi_add s3) (RB0, BC) = 4 * b"
    "regs (hi_add s3) r8 = regs s r8 + 2 * b" "?frame (hi_add s3)"
    using b0 by (simp_all add: hi_add_def s1_def s2_def s3_def instr_defs Let_def r8_def r_2_def a_def
        b_def a1_def a2_def push_bit_eq_mult del: drop_bit_Suc)
  have t4: "rbs (shlw1 (Rp BC) s4) = RB0" "sp (shlw1 (Rp BC) s4) = sp s"
    "mem (shlw1 (Rp BC) s4) = mem s"
    "regs (shlw1 (Rp BC) s4) (RB0, AX) = a2" "regs (shlw1 (Rp BC) s4) (RB0, BC) = 4 * b"
    "regs (shlw1 (Rp BC) s4) r8 = regs s r8" "?frame (shlw1 (Rp BC) s4)"
    using b0 by (simp_all add: s1_def s2_def s3_def s4_def instr_defs Let_def r8_def r_2_def a_def
        b_def a1_def a2_def push_bit_eq_mult del: drop_bit_Suc)
  have t5: "rbs (ret s4) = RB0" "sp (ret s4) = sp s + 4" "mem (ret s4) = mem s"
    "regs (ret s4) r8 = regs s r8" "?frame (ret s4)"
    using b0 by (simp_all add: s1_def s2_def s3_def s4_def instr_defs Let_def r8_def)
  consider (add1) "bit a 0" | (done1) "\<not> bit a 0" "a1 = 0"
    | (add2) "\<not> bit a 0" "a1 \<noteq> 0" "bit a1 0"
    | (next2) "\<not> bit a 0" "a1 \<noteq> 0" "\<not> bit a1 0" "a2 \<noteq> 0"
    | (done2) "\<not> bit a 0" "a1 \<noteq> 0" "\<not> bit a1 0" "a2 = 0"
    by blast
  then show ?case
  proof cases
    case add1
    then have a0: "a \<noteq> 0" by auto
    have "unat (regs (hi_add s1) (RB0, AX)) < unat (regs s (RB0, AX))"
      using a0 lt1 by (simp add: t1 a_def[symmetric])
    from less.hyps [OF this t1(1)] show ?thesis
      unfolding eq fl t1(2-6) a_def[symmetric] b_def[symmetric]
      using da add1 t1(7) by (simp add: algebra_simps)
  next
    case done1
    then have "a = 0" using da by simp
    then show ?thesis
      unfolding eq fl using done1 t2 by (simp add: a_def[symmetric])
  next
    case add2
    have "unat (regs (hi_add s3) (RB0, AX)) < unat (regs s (RB0, AX))"
      using add2 lt2 by (simp add: t3 a_def[symmetric])
    from less.hyps [OF this t3(1)] show ?thesis
      unfolding eq fl t3(2-6) a_def[symmetric] b_def[symmetric]
      using da da1 add2 t3(7) by (simp add: algebra_simps)
  next
    case next2
    have "unat (regs (shlw1 (Rp BC) s4) (RB0, AX)) < unat (regs s (RB0, AX))"
      using next2 lt2 by (simp add: t4 a_def[symmetric])
    from less.hyps [OF this t4(1)] show ?thesis
      unfolding eq fl t4(2-6) a_def[symmetric] b_def[symmetric]
      using da da1 next2 t4(7) by (simp add: algebra_simps)
  next
    case done2
    then have "a1 = 0" using da1 by simp
    with done2 show ?thesis by simp
  qed
qed

section \<open>The 16x16=32 multiply loop of \<open>___mulsi3\<close>\<close>

lemmas vreg_defs = r_0_def r_2_def r8_def r10_def r16_def r18_def

lemma step_regs:
  assumes "rbs s = RB0"
  shows "regs (Lmul_hisi_step s) r8 =
           (if bit (regs s (RB0, AX)) 0 then regs s r8 + regs s r10 else regs s r8)"
    and "regs (Lmul_hisi_step s) r16 =
           (if bit (regs s (RB0, AX)) 0
            then regs s r16 + (if 2 ^ 16 \<le> unat (regs s r8) + unat (regs s r10) then 1 else 0)
                   + regs s (RB0, BC)
            else regs s r16)"
    and "regs (Lmul_hisi_step s) r10 = push_bit 1 (regs s r10)"
    and "regs (Lmul_hisi_step s) (RB0, BC) =
           push_bit 1 (regs s (RB0, BC)) + (if bit (regs s r10) 15 then 1 else 0)"
    and "l \<noteq> (RB0, AX) \<and> l \<noteq> (RB0, BC) \<and> l \<noteq> r8 \<and> l \<noteq> r10 \<and> l \<noteq> r16
           \<Longrightarrow> regs (Lmul_hisi_step s) l = regs s l"
    and "sp (Lmul_hisi_step s) = sp s" and "mem (Lmul_hisi_step s) = mem s"
  using assms
  by (simp_all add: Lmul_hisi_step_def instr_defs Let_def vreg_defs del: drop_bit_Suc push_bit_Suc)

lemma step_res32:
  "rbs s = RB0 \<Longrightarrow>
   (word_cat (regs (Lmul_hisi_step s) r16) (regs (Lmul_hisi_step s) r8) :: 32 word) =
     word_cat (regs s r16) (regs s r8) +
     (if bit (regs s (RB0, AX)) 0 then word_cat (regs s (RB0, BC)) (regs s r10) else 0)"
  by (simp only: step_regs add_carry32 split: if_split) simp

lemma step_op32:
  "rbs s = RB0 \<Longrightarrow>
   (word_cat (regs (Lmul_hisi_step s) (RB0, BC)) (regs (Lmul_hisi_step s) r10) :: 32 word) =
     2 * word_cat (regs s (RB0, BC)) (regs s r10)"
  by (simp only: step_regs shl32)


lemma Lmul_hisi_loop_unfold:
  "Lmul_hisi_loop s =
     (if z (Lmul_hisi_step s) then Lmul_hisi_done (Lmul_hisi_step s)
      else if \<not> z (Lmul_hisi_step (Lmul_hisi_step s))
      then Lmul_hisi_loop (Lmul_hisi_step (Lmul_hisi_step s))
      else Lmul_hisi_done (Lmul_hisi_step (Lmul_hisi_step s)))"
  by (subst Lmul_hisi_loop.simps) (simp add: Let_def)

lemma steps_rbs: "rbs s = RB0 \<Longrightarrow> rbs ((Lmul_hisi_step ^^ k) s) = RB0"
  by (cases k) (simp_all add: step_rbs)

lemma steps_ax:
  "rbs s = RB0 \<Longrightarrow> regs ((Lmul_hisi_step ^^ k) s) (RB0, AX) = drop_bit k (regs s (RB0, AX))"
proof (induction k)
  case 0
  show ?case by simp
next
  case (Suc k)
  then show ?case
    by (simp add: step_ax steps_rbs drop_bit_drop_bit del: drop_bit_Suc)
qed

lemma Lmul_hisi_loop_steps:
  "rbs s = RB0 \<Longrightarrow> drop_bit n (regs s (RB0, AX)) = 0 \<Longrightarrow> 0 < n \<Longrightarrow>
   \<exists>k. 1 \<le> k \<and> k \<le> n \<and> Lmul_hisi_loop s = Lmul_hisi_done ((Lmul_hisi_step ^^ k) s) \<and>
       drop_bit k (regs s (RB0, AX)) = 0 \<and>
       (\<forall>j. 1 \<le> j \<and> j < k \<longrightarrow> drop_bit j (regs s (RB0, AX)) \<noteq> 0)"
proof (induction n arbitrary: s rule: less_induct)
  case (less n)
  note b0 = \<open>rbs s = RB0\<close>
  define m where "m = regs s (RB0, AX)"
  define s1 where "s1 = Lmul_hisi_step s"
  define s2 where "s2 = Lmul_hisi_step s1"
  have b: "rbs s1 = RB0" "rbs s2 = RB0" by (simp_all add: s1_def s2_def step_rbs)
  have ax: "regs s1 (RB0, AX) = drop_bit 1 m" "regs s2 (RB0, AX) = drop_bit 2 m"
    using b0 b by (simp_all add: s1_def s2_def m_def step_ax drop_bit_drop_bit numeral_2_eq_2 del: drop_bit_Suc)
  have zz: "z s1 = (drop_bit 1 m = 0)" "z s2 = (drop_bit 2 m = 0)"
    using ax by (simp_all add: s1_def s2_def step_z)
  have eq: "Lmul_hisi_loop s =
     (if z s1 then Lmul_hisi_done s1
      else if \<not> z s2 then Lmul_hisi_loop s2 else Lmul_hisi_done s2)"
    unfolding s1_def s2_def by (rule Lmul_hisi_loop_unfold)
  have n0: "drop_bit n m = 0" using less.prems by (simp add: m_def)
  consider (one) "drop_bit 1 m = 0" | (two) "drop_bit 1 m \<noteq> 0" "drop_bit 2 m = 0"
    | (more) "drop_bit 1 m \<noteq> 0" "drop_bit 2 m \<noteq> 0"
    by blast
  then show ?case
  proof cases
    case one
    have "Lmul_hisi_loop s = Lmul_hisi_done s1"
      using one by (simp add: eq zz)
    then have "Lmul_hisi_loop s = Lmul_hisi_done ((Lmul_hisi_step ^^ 1) s)"
      by (simp add: s1_def)
    with one \<open>0 < n\<close> show ?thesis
      unfolding m_def[symmetric] by (intro exI [of _ 1]) simp
  next
    case two
    have "n \<noteq> 1" using two n0 by auto
    then have n2: "2 \<le> n" using \<open>0 < n\<close> by simp
    have "Lmul_hisi_loop s = Lmul_hisi_done s2"
      using two by (simp add: eq zz)
    then have "Lmul_hisi_loop s = Lmul_hisi_done ((Lmul_hisi_step ^^ 2) s)"
      by (simp add: s1_def s2_def numeral_2_eq_2)
    moreover have "\<forall>j. 1 \<le> j \<and> j < 2 \<longrightarrow> drop_bit j m \<noteq> 0"
    proof (intro allI impI)
      fix j :: nat
      assume "1 \<le> j \<and> j < 2"
      then have "j = 1" by simp
      with two show "drop_bit j m \<noteq> 0" by simp
    qed
    ultimately show ?thesis
      using two n2 unfolding m_def[symmetric] by (intro exI [of _ 2]) simp
  next
    case more
    have "n \<noteq> 1" "n \<noteq> 2" using more n0 by auto
    then have n3: "3 \<le> n" using \<open>0 < n\<close> by simp
    have "n - 2 + 2 = n" using n3 by simp
    then have d: "drop_bit (n - 2) (regs s2 (RB0, AX)) = 0"
      using n0 by (simp only: ax drop_bit_drop_bit)
    from less.IH [of "n - 2" s2, OF _ b(2) d] n3
    obtain k where k: "1 \<le> k" "k \<le> n - 2"
      "Lmul_hisi_loop s2 = Lmul_hisi_done ((Lmul_hisi_step ^^ k) s2)"
      "drop_bit k (regs s2 (RB0, AX)) = 0"
      "\<forall>j. 1 \<le> j \<and> j < k \<longrightarrow> drop_bit j (regs s2 (RB0, AX)) \<noteq> 0"
      by auto
    have "(Lmul_hisi_step ^^ k) s2 = (Lmul_hisi_step ^^ (k + 2)) s"
      by (simp add: s2_def s1_def funpow_swap1)
    then have "Lmul_hisi_loop s = Lmul_hisi_done ((Lmul_hisi_step ^^ (k + 2)) s)"
      using more k(3) by (simp add: eq zz)
    moreover have "drop_bit (k + 2) m = 0" using k(4) by (simp add: ax drop_bit_drop_bit)
    moreover have "\<forall>j. 1 \<le> j \<and> j < k + 2 \<longrightarrow> drop_bit j m \<noteq> 0"
    proof (intro allI impI)
      fix j :: nat
      assume j: "1 \<le> j \<and> j < k + 2"
      show "drop_bit j m \<noteq> 0"
      proof (cases "j \<le> 2")
        case True
        with j have "j = 1 \<or> j = 2" by auto
        with more show ?thesis by auto
      next
        case False
        with j have j2: "1 \<le> j - 2 \<and> j - 2 < k" and jj: "j - 2 + 2 = j" by linarith+
        from k(5) [rule_format, OF j2] have "drop_bit (j - 2) (drop_bit 2 m) \<noteq> 0"
          unfolding ax .
        then show ?thesis unfolding drop_bit_drop_bit jj .
      qed
    qed
    ultimately show ?thesis
      using k(1,2) n3 unfolding m_def[symmetric] by (intro exI [of _ "k + 2"]) simp
  qed
qed


lemma take_bit_Suc_unat:
  "(of_nat (take_bit (Suc k) (unat (m::16 word))) :: 32 word) =
     of_nat (take_bit k (unat m)) + (if bit m k then 2 ^ k else 0)"
proof -
  have "bit (unat m) k = bit m k"
    by (simp add: bit_unsigned_iff)
  then show ?thesis
    unfolding take_bit_Suc_from_most [of k "unat m"] by simp
qed

lemma steps_inv:
  assumes b0: "rbs s = RB0"
  shows "(word_cat (regs ((Lmul_hisi_step ^^ k) s) r16) (regs ((Lmul_hisi_step ^^ k) s) r8) :: 32 word) =
           word_cat (regs s r16) (regs s r8) +
           of_nat (take_bit k (unat (regs s (RB0, AX)))) * word_cat (regs s (RB0, BC)) (regs s r10) \<and>
         (word_cat (regs ((Lmul_hisi_step ^^ k) s) (RB0, BC)) (regs ((Lmul_hisi_step ^^ k) s) r10) :: 32 word) =
           2 ^ k * word_cat (regs s (RB0, BC)) (regs s r10) \<and>
         sp ((Lmul_hisi_step ^^ k) s) = sp s \<and> mem ((Lmul_hisi_step ^^ k) s) = mem s \<and>
         (\<forall>l. l \<noteq> (RB0, AX) \<and> l \<noteq> (RB0, BC) \<and> l \<noteq> r8 \<and> l \<noteq> r10 \<and> l \<noteq> r16
              \<longrightarrow> regs ((Lmul_hisi_step ^^ k) s) l = regs s l)"
proof (induction k)
  case 0
  show ?case by simp
next
  case (Suc k)
  define t where "t = (Lmul_hisi_step ^^ k) s"
  have bt: "rbs t = RB0" unfolding t_def using b0 by (rule steps_rbs)
  have at: "regs t (RB0, AX) = drop_bit k (regs s (RB0, AX))"
    unfolding t_def using b0 by (rule steps_ax)
  have bk: "bit (regs t (RB0, AX)) 0 = bit (regs s (RB0, AX)) k"
    by (simp add: at bit_drop_bit_eq)
  have nx: "(Lmul_hisi_step ^^ Suc k) s = Lmul_hisi_step t" by (simp add: t_def)
  from Suc.IH show ?case
    unfolding nx t_def[symmetric]
    by (simp add: step_res32 [OF bt] step_op32 [OF bt] step_regs(5-7) [OF bt] bk
        take_bit_Suc_unat algebra_simps del: of_nat_take_bit)
qed


lemma Lmul_hisi_done_spec:
  assumes "rbs t = RB0"
  shows "rbs (Lmul_hisi_done t) = RB0" and "sp (Lmul_hisi_done t) = sp t + 8"
    and "mem (Lmul_hisi_done t) = mem t"
    and "regs (Lmul_hisi_done t) r8 = regs t r8"
    and "regs (Lmul_hisi_done t) r10 = regs t r16"
    and "regs (Lmul_hisi_done t) (RB0, AX) = regs t r16"
    and "regs (Lmul_hisi_done t) r16 = load16 (mem t) (sp t + 2)"
    and "regs (Lmul_hisi_done t) r18 = load16 (mem t) (sp t)"
    and "l \<noteq> (RB0, AX) \<and> l \<noteq> r10 \<and> l \<noteq> r16 \<and> l \<noteq> r18
           \<Longrightarrow> regs (Lmul_hisi_done t) l = regs t l"
  using assms by (simp_all add: Lmul_hisi_done_def instr_defs vreg_defs)

lemma Lmul_hi_spec:
  assumes "rbs s = RB0"
  shows "rbs (Lmul_hi s) = RB0" and "sp (Lmul_hi s) = sp s + 4" and "mem (Lmul_hi s) = mem s"
    and "regs (Lmul_hi s) r8 = regs s r8 + regs s (RB0, AX) * regs s (RB0, BC)"
    and "l \<noteq> (RB0, AX) \<and> l \<noteq> (RB0, BC) \<and> l \<noteq> r8 \<Longrightarrow> regs (Lmul_hi s) l = regs s l"
proof -
  define t where "t = run [cmpw (Rp AX) (Rp BC), skc (xchw (Rp AX) (Rp BC))] s"
  have t: "rbs t = RB0" "sp t = sp s" "mem t = mem s" "regs t r8 = regs s r8"
    "regs t (RB0, AX) * regs t (RB0, BC) = regs s (RB0, AX) * regs s (RB0, BC)"
    "\<And>l. l \<noteq> (RB0, AX) \<and> l \<noteq> (RB0, BC) \<and> l \<noteq> r8 \<Longrightarrow> regs t l = regs s l"
    using assms by (simp_all add: t_def instr_defs vreg_defs Let_def)
  have eq: "Lmul_hi s = Lmul_hi_loop t" by (simp add: Lmul_hi_def t_def)
  note L = Lmul_hi_loop_spec [OF t(1)]
  show "rbs (Lmul_hi s) = RB0" "sp (Lmul_hi s) = sp s + 4" "mem (Lmul_hi s) = mem s"
    "regs (Lmul_hi s) r8 = regs s r8 + regs s (RB0, AX) * regs s (RB0, BC)"
    using L t(2-5) by (simp_all add: eq)
  show "l \<noteq> (RB0, AX) \<and> l \<noteq> (RB0, BC) \<and> l \<noteq> r8 \<Longrightarrow> regs (Lmul_hi s) l = regs s l"
    using L t(6) [of l] by (cases l) (simp add: eq)
qed

section \<open>The set-up of \<open>___mulsi3\<close>: cross terms and operand order\<close>

lemma load16_upd: "a \<noteq> b \<Longrightarrow> a \<noteq> b + 1 \<Longrightarrow> load16 (m(a := v)) b = load16 m b"
  by (simp add: load16_def)

lemma cross_term_spec:
  assumes b0: "rbs s = RB0"
  shows "rbs (cross_term ra hi lo s) = RB0" and "sp (cross_term ra hi lo s) = sp s"
    and "regs (cross_term ra hi lo s) r8 =
           regs s r8 + load16 (mem s) (sp s + hi) * load16 (mem s) (sp s + lo)"
    and "l \<noteq> (RB0, AX) \<and> l \<noteq> (RB0, BC) \<and> l \<noteq> r8 \<Longrightarrow> regs (cross_term ra hi lo s) l = regs s l"
    and "a \<noteq> sp s - 2 \<and> a \<noteq> sp s - 3 \<and> a \<noteq> sp s - 4 \<Longrightarrow> mem (cross_term ra hi lo s) a = mem s a"
proof -
  define h where "h = load16 (mem s) (sp s + hi)"
  define w where "w = load16 (mem s) (sp s + lo)"
  define c where "c = (s\<lparr>regs := (regs s)((RB0, BC) := h, (RB0, AX) := w), cy := False, z := False,
        sp := sp s - 4,
        mem := (mem s)(sp s - 2 := ucast (drop_bit 16 ra), sp s - 3 := ucast (drop_bit 8 ra),
                       sp s - 4 := ucast ra)\<rparr>)"
  have c: "rbs c = RB0" "sp c = sp s - 4" "regs c r8 = regs s r8" "regs c (RB0, AX) = w"
    "regs c (RB0, BC) = h"
    by (simp_all add: c_def b0 vreg_defs)
  note L = Lmul_hi_spec [OF c(1)]
  have eq: "cross_term ra hi lo s =
    (if h = 0 then (movw (Rp AX) (SpRel hi) s)\<lparr>cy := False, z := True\<rparr>
     else if h = 0xffff then
       s\<lparr>regs := (regs s)((RB0, AX) := w, r8 := regs s r8 - w),
         cy := unat (regs s r8) < unat w, z := (regs s r8 - w = 0)\<rparr>
     else if w = 0 then s\<lparr>regs := (regs s)((RB0, BC) := h, (RB0, AX) := w), cy := False, z := True\<rparr>
     else Lmul_hi c)"
    using b0
    by (simp add: cross_term_def Let_def instr_defs h_def w_def c_def vreg_defs)
  have "(0xffff :: 16 word) = - 1" by simp
  then have m1: "(0xffff :: 16 word) * w = - w" by (simp only: mult_minus1)
  show "rbs (cross_term ra hi lo s) = RB0"
    using b0 L(1) by (simp add: eq movw_def)
  show "sp (cross_term ra hi lo s) = sp s"
    using L(2) c(2) by (simp add: eq movw_def)
  show "regs (cross_term ra hi lo s) r8 =
           regs s r8 + load16 (mem s) (sp s + hi) * load16 (mem s) (sp s + lo)"
    unfolding h_def[symmetric] w_def[symmetric]
    using L(4) c(3-5) m1 b0 by (simp add: eq movw_def vreg_defs mult.commute)
  show "regs (cross_term ra hi lo s) l = regs s l"
    if "l \<noteq> (RB0, AX) \<and> l \<noteq> (RB0, BC) \<and> l \<noteq> r8"
  proof -
    from that have n: "l \<noteq> (RB0, AX)" "l \<noteq> (RB0, BC)" "l \<noteq> r8" by simp_all
    have "regs c l = regs s l" using n by (simp add: c_def)
    moreover have "regs (Lmul_hi c) l = regs c l" using L(5) n by simp
    ultimately show ?thesis using n b0 by (simp add: eq movw_def)
  qed
  show "mem (cross_term ra hi lo s) a = mem s a"
    if "a \<noteq> sp s - 2 \<and> a \<noteq> sp s - 3 \<and> a \<noteq> sp s - 4"
  proof -
    from that have n: "a \<noteq> sp s - 2" "a \<noteq> sp s - 3" "a \<noteq> sp s - 4" by simp_all
    have "mem c a = mem s a" using n by (simp add: c_def)
    then show ?thesis using L(3) b0 by (simp add: eq movw_def)
  qed
qed

lemma load16_cong: "m' b = m b \<Longrightarrow> m' (b + 1) = m (b + 1) \<Longrightarrow> load16 m' b = load16 m b"
  by (simp add: load16_def)

lemma cat_bytes: "word_cat (ucast (drop_bit 8 v) :: 8 word) (ucast v :: 8 word) = (v :: 16 word)"
  by (rule bit_word_eqI) (auto simp add: bit_simps)

lemma prologue_spec:
  shows "rbs (prologue s) = RB0" and "sp (prologue s) = sp s - 4"
    and "regs (prologue s) (RB0, AX) = 0" and "regs (prologue s) r8 = 0"
    and "regs (prologue s) r16 = 0"
    and "l \<noteq> (RB0, AX) \<and> l \<noteq> r8 \<and> l \<noteq> r16 \<Longrightarrow> regs (prologue s) l = regs s l"
    and "a \<noteq> sp s - 1 \<and> a \<noteq> sp s - 2 \<and> a \<noteq> sp s - 3  \<and> a \<noteq> sp s - 4
           \<Longrightarrow> mem (prologue s) a = mem s a"
    and "load16 (mem (prologue s)) (sp s - 4) = regs s r18"
    and "load16 (mem (prologue s)) (sp s - 2) = regs s r16"
  by (simp_all add: prologue_def instr_defs vreg_defs Let_def load16_def cat_bytes)

lemma mulsi3_setup_eq:
  "mulsi3_setup ra1 ra2 s = order_lows (cross_term ra2 10 12 (cross_term ra1 14 8 (prologue s)))"
  by (simp add: mulsi3_setup_def order_lows_def prologue_def Let_def)

lemma order_lows_spec:
  assumes "rbs s = RB0"
  shows "rbs (order_lows s) = RB0" and "sp (order_lows s) = sp s" and "mem (order_lows s) = mem s"
    and "regs (order_lows s) (RB0, AX) = min (load16 (mem s) (sp s + 8)) (load16 (mem s) (sp s + 12))"
    and "regs (order_lows s) r10 = max (load16 (mem s) (sp s + 8)) (load16 (mem s) (sp s + 12))"
    and "regs (order_lows s) (RB0, BC) = 0" and "regs (order_lows s) r8 = 0"
    and "regs (order_lows s) r16 = regs s r8"
    and "l \<noteq> (RB0, AX) \<and> l \<noteq> (RB0, BC) \<and> l \<noteq> r8 \<and> l \<noteq> r10 \<and> l \<noteq> r16
           \<Longrightarrow> regs (order_lows s) l = regs s l"
  using assms
  by (auto simp add: order_lows_def instr_defs vreg_defs Let_def word_less_nat_alt [symmetric]
      min_def max_def)

lemma mulsi3_setup_spec:
  fixes s :: state and ra1 ra2 :: "20 word"
  defines "t \<equiv> mulsi3_setup ra1 ra2 s"
  defines "aL \<equiv> load16 (mem s) (sp s + 4)" and "aH \<equiv> load16 (mem s) (sp s + 6)"
    and "bL \<equiv> load16 (mem s) (sp s + 8)" and "bH \<equiv> load16 (mem s) (sp s + 10)"
  shows "rbs t = RB0" and "sp t = sp s - 4"
    and "regs t (RB0, AX) = min aL bL" and "regs t r10 = max aL bL"
    and "regs t (RB0, BC) = 0" and "regs t r8 = 0"
    and "regs t r16 = bH * aL + aH * bL"
    and "load16 (mem t) (sp s - 4) = regs s r18"
    and "load16 (mem t) (sp s - 2) = regs s r16"
    and "l \<noteq> (RB0, AX) \<and> l \<noteq> (RB0, BC) \<and> l \<noteq> r8 \<and> l \<noteq> r10 \<and> l \<noteq> r16
           \<Longrightarrow> regs t l = regs s l"
    and "a \<noteq> sp s - 1 \<and> a \<noteq> sp s - 2 \<and> a \<noteq> sp s - 3 \<and> a \<noteq> sp s - 4 \<and>
         a \<noteq> sp s - 6 \<and> a \<noteq> sp s - 7 \<and> a \<noteq> sp s - 8
           \<Longrightarrow> mem t a = mem s a"
proof -
  define p0 where "p0 = prologue s"
  define p1 where "p1 = cross_term ra1 14 8 p0"
  define p2 where "p2 = cross_term ra2 10 12 p1"
  have t: "t = order_lows p2"
    by (simp add: t_def mulsi3_setup_eq p0_def p1_def p2_def)
  note P0 = prologue_spec [where s = s, folded p0_def]
  note P1 = cross_term_spec [OF P0(1), where ra = ra1 and hi = 14 and lo = 8, folded p1_def]
  note P2 = cross_term_spec [OF P1(1), where ra = ra2 and hi = 10 and lo = 12, folded p2_def]
  note P3 = order_lows_spec [OF P2(1), folded t]
  have sp: "sp p1 = sp s - 4" "sp p2 = sp s - 4"
    by (simp_all add: P0 P1 P2)
  have m1: "mem p1 a = mem p0 a" if "a \<noteq> sp s - 6" "a \<noteq> sp s - 7" "a \<noteq> sp s - 8" for a
    using that P1(5) [where a = a] by (simp add: P0(2))
  have m2: "mem p2 a = mem p1 a" if "a \<noteq> sp s - 6" "a \<noteq> sp s - 7" "a \<noteq> sp s - 8" for a
    using that P2(5) [where a = a] by (simp add: sp)
  have m0: "mem p0 a = mem s a"
    if "a \<noteq> sp s - 1" "a \<noteq> sp s - 2" "a \<noteq> sp s - 3" "a \<noteq> sp s - 4" for a
    using that P0(7) [where a = a] by simp
  have args0: "load16 (mem p0) (sp s + 4) = aL" "load16 (mem p0) (sp s + 6) = aH"
    "load16 (mem p0) (sp s + 8) = bL" "load16 (mem p0) (sp s + 10) = bH"
    unfolding aL_def aH_def bL_def bH_def by (rule load16_cong; rule m0; simp)+
  have args1: "load16 (mem p1) (sp s + 4) = aL" "load16 (mem p1) (sp s + 6) = aH"
    "load16 (mem p1) (sp s + 8) = bL" "load16 (mem p1) (sp s + 10) = bH"
    unfolding args0 [symmetric] by (rule load16_cong; rule m1; simp)+
  have args2: "load16 (mem p2) (sp s + 4) = aL" "load16 (mem p2) (sp s + 6) = aH"
    "load16 (mem p2) (sp s + 8) = bL" "load16 (mem p2) (sp s + 10) = bH"
    unfolding args1 [symmetric] by (rule load16_cong; rule m2; simp)+
  have o: "sp s - 4 + 14 = sp s + 10" "sp s - 4 + 8 = sp s + 4" "sp s - 4 + 10 = sp s + 6"
    "sp s - 4 + 12 = sp s + 8"
    by simp_all
  have r8: "regs p2 r8 = bH * aL + aH * bL"
    unfolding P2(3) P1(3) P0(2,4) sp o args0 args1 by simp
  show "rbs t = RB0" by (rule P3(1))
  show "sp t = sp s - 4" by (simp add: P3(2) sp)
  show "regs t (RB0, AX) = min aL bL" unfolding P3(4) sp o args2 ..
  show "regs t r10 = max aL bL" unfolding P3(5) sp o args2 ..
  show "regs t (RB0, BC) = 0" by (rule P3(6))
  show "regs t r8 = 0" by (rule P3(7))
  show "regs t r16 = bH * aL + aH * bL" by (simp add: P3(8) r8)
  have "load16 (mem p2) (sp s - 4) = load16 (mem p1) (sp s - 4)"
    by (rule load16_cong; rule m2; simp)
  also have "\<dots> = load16 (mem p0) (sp s - 4)"
    by (rule load16_cong; rule m1; simp)
  finally show "load16 (mem t) (sp s - 4) = regs s r18" by (simp add: P3(3) P0(8))
  have "load16 (mem p2) (sp s - 2) = load16 (mem p1) (sp s - 2)"
    by (rule load16_cong; rule m2; simp)
  also have "\<dots> = load16 (mem p0) (sp s - 2)"
    by (rule load16_cong; rule m1; simp)
  finally show "load16 (mem t) (sp s - 2) = regs s r16" by (simp add: P3(3) P0(9))
  show "regs t l = regs s l"
    if "l \<noteq> (RB0, AX) \<and> l \<noteq> (RB0, BC) \<and> l \<noteq> r8 \<and> l \<noteq> r10 \<and> l \<noteq> r16"
  proof -
    from that have n: "l \<noteq> (RB0, AX)" "l \<noteq> (RB0, BC)" "l \<noteq> r8" "l \<noteq> r10" "l \<noteq> r16"
      by simp_all
    show ?thesis using n by (simp add: P3(9) P2(4) P1(4) P0(6))
  qed
  show "mem t a = mem s a"
    if "a \<noteq> sp s - 1 \<and> a \<noteq> sp s - 2 \<and> a \<noteq> sp s - 3 \<and> a \<noteq> sp s - 4 \<and>
        a \<noteq> sp s - 6 \<and> a \<noteq> sp s - 7 \<and> a \<noteq> sp s - 8"
    using that by (simp add: P3(3) m2 m1 m0)
qed

lemma take_bit_unat_self: "drop_bit k (m :: 16 word) = 0 \<Longrightarrow> take_bit k (unat m) = unat m"
proof -
  assume "drop_bit k m = 0"
  then have "unat (drop_bit k m) = 0" by simp
  then have "drop_bit k (unat m) = 0" by (simp only: unat_drop_bit_eq)
  then show ?thesis by (simp only: take_bit_eq_self_iff_drop_bit_eq_0)
qed

lemma mul32_halves:
  "(word_cat (aH::16 word) (aL::16 word) :: 32 word) * word_cat (bH::16 word) (bL::16 word) =
     word_cat (bH * aL + aH * bL) (0::16 word) + ucast aL * ucast bL"
proof -
  have z: "(4294967296 :: 32 word) = 0" by simp
  show ?thesis
    unfolding cat32_eq hi_ucast_add hi_ucast_mult
    by (simp add: algebra_simps z)
qed

section \<open>What \<open>___mulsi3\<close> computes and what it leaves alone\<close>

lemma mulsi3_spec:
  fixes s :: state and ra1 ra2 :: "20 word"
  defines "r \<equiv> mulsi3 ra1 ra2 s"
  defines "aL \<equiv> load16 (mem s) (sp s + 4)" and "aH \<equiv> load16 (mem s) (sp s + 6)"
    and "bL \<equiv> load16 (mem s) (sp s + 8)" and "bH \<equiv> load16 (mem s) (sp s + 10)"
  shows "rbs r = RB0" and "sp r = sp s + 4"
    and "res32 r = word_cat (bH * aL + aH * bL) (0::16 word) + ucast aL * ucast bL"
    and "regs r r16 = regs s r16" and "regs r r18 = regs s r18"
    and "l \<noteq> (RB0, AX) \<and> l \<noteq> (RB0, BC) \<and> l \<noteq> r8 \<and> l \<noteq> r10 \<Longrightarrow> regs r l = regs s l"
    and "a \<noteq> sp s - 1 \<and> a \<noteq> sp s - 2 \<and> a \<noteq> sp s - 3 \<and> a \<noteq> sp s - 4 \<and>
         a \<noteq> sp s - 6 \<and> a \<noteq> sp s - 7 \<and> a \<noteq> sp s - 8
           \<Longrightarrow> mem r a = mem s a"
    and "\<exists>k. 1 \<le> k \<and> k \<le> 16 \<and>
             r = Lmul_hisi_done ((Lmul_hisi_step ^^ k) (mulsi3_setup ra1 ra2 s)) \<and>
             regs ((Lmul_hisi_step ^^ k) (mulsi3_setup ra1 ra2 s)) (RB0, AX) = 0"
proof -
  define t where "t = mulsi3_setup ra1 ra2 s"
  note T = mulsi3_setup_spec [where s = s and ?ra1.0 = ra1 and ?ra2.0 = ra2, folded t_def aL_def aH_def bL_def bH_def]
  have "drop_bit 16 (regs t (RB0, AX)) = 0" by simp
  from Lmul_hisi_loop_steps [OF T(1) this]
  obtain k where k: "1 \<le> k" "k \<le> 16" "Lmul_hisi_loop t = Lmul_hisi_done ((Lmul_hisi_step ^^ k) t)"
    "drop_bit k (regs t (RB0, AX)) = 0"
    by auto
  define u where "u = (Lmul_hisi_step ^^ k) t"
  have r: "r = Lmul_hisi_done u" by (simp add: r_def mulsi3_def t_def[symmetric] k(3) u_def)
  have bu: "rbs u = RB0" unfolding u_def using T(1) by (rule steps_rbs)
  note U = steps_inv [OF T(1), of k, folded u_def]
  note D = Lmul_hisi_done_spec [OF bu, folded r]
  have au: "regs u (RB0, AX) = 0" unfolding u_def using steps_ax [OF T(1), of k] k(4) by simp
  show "\<exists>k. 1 \<le> k \<and> k \<le> 16 \<and>
             r = Lmul_hisi_done ((Lmul_hisi_step ^^ k) (mulsi3_setup ra1 ra2 s)) \<and>
             regs ((Lmul_hisi_step ^^ k) (mulsi3_setup ra1 ra2 s)) (RB0, AX) = 0"
    using k(1,2) r au unfolding u_def t_def by blast
  show "rbs r = RB0" by (rule D(1))
  show "sp r = sp s + 4" using U by (simp add: D(2) T(2))
  have mm: "(ucast (min aL bL) :: 32 word) * ucast (max aL bL) = ucast aL * ucast bL"
    by (simp add: min_def max_def mult.commute)
  have "res32 r = word_cat (regs u r16) (regs u r8)"
    by (simp add: res32_def D)
  also have "\<dots> = word_cat (regs t r16) (regs t r8) +
      of_nat (take_bit k (unat (regs t (RB0, AX)))) * word_cat (regs t (RB0, BC)) (regs t r10)"
    using U by simp
  also have "\<dots> = word_cat (bH * aL + aH * bL) (0::16 word) + ucast aL * ucast bL"
    unfolding T take_bit_unat_self [OF k(4) [unfolded T(3)]] by (simp add: word_cat_eq mm)
  finally show "res32 r = word_cat (bH * aL + aH * bL) (0::16 word) + ucast aL * ucast bL" .
  have su: "sp u = sp s - 4" "mem u = mem t" using U by (simp_all add: T(2))
  show "regs r r16 = regs s r16" unfolding D(7) su using T(9) by simp
  show "regs r r18 = regs s r18" unfolding D(8) su using T(8) by simp
  show "regs r l = regs s l"
    if "l \<noteq> (RB0, AX) \<and> l \<noteq> (RB0, BC) \<and> l \<noteq> r8 \<and> l \<noteq> r10"
  proof (cases "l = r16 \<or> l = r18")
    case True
    then show ?thesis
      using \<open>regs r r16 = regs s r16\<close> \<open>regs r r18 = regs s r18\<close> by auto
  next
    case False
    with that have n: "l \<noteq> (RB0, AX)" "l \<noteq> (RB0, BC)" "l \<noteq> r8" "l \<noteq> r10" "l \<noteq> r16" "l \<noteq> r18"
      by simp_all
    have "regs r l = regs u l" using n by (simp add: D(9))
    also have "\<dots> = regs t l" using U n by blast
    also have "\<dots> = regs s l" using n by (simp add: T(10))
    finally show ?thesis .
  qed
  show "mem r a = mem s a"
    if "a \<noteq> sp s - 1 \<and> a \<noteq> sp s - 2 \<and> a \<noteq> sp s - 3 \<and> a \<noteq> sp s - 4 \<and>
         a \<noteq> sp s - 6 \<and> a \<noteq> sp s - 7 \<and> a \<noteq> sp s - 8"
    using that by (simp add: D(3) su T(11))
qed

lemma load32_halves: "load32 m a = word_cat (load16 m (a + 2)) (load16 m a)"
  by (simp add: load32_def)

lemma mulsi3_product: "res32 (mulsi3 ra1 ra2 s) = arg_a s * arg_b s"
proof -
  have a: "sp s + 4 + 2 = sp s + 6" "sp s + 8 + 2 = sp s + 10" by simp_all
  show ?thesis
    unfolding mulsi3_spec(3) arg_a_def arg_b_def load32_def a mul32_halves ..
qed

text \<open>
  C1: for every pair of 32-bit operands on the stack at \<open>[sp+4]\<close> and \<open>[sp+8]\<close>,
  \<open>___mulsi3\<close> returns in R8..R11 the low 32 bits of their product, and that value is the
  low partial product \<open>aL * bL\<close> plus the sum of the two cross terms, truncated to 16 bits
  and shifted into the high word.
\<close>

theorem C1_mulsi3_low_product:
  "res32 (mulsi3 ra1 ra2 s) = arg_a s * arg_b s \<and>
   res32 (mulsi3 ra1 ra2 s) =
     ucast (load16 (mem s) (sp s + 4)) * ucast (load16 (mem s) (sp s + 8)) +
     push_bit 16 (ucast (load16 (mem s) (sp s + 4) * load16 (mem s) (sp s + 10) +
                         load16 (mem s) (sp s + 6) * load16 (mem s) (sp s + 8)))"
proof
  show "res32 (mulsi3 ra1 ra2 s) = arg_a s * arg_b s" by (rule mulsi3_product)
  show "res32 (mulsi3 ra1 ra2 s) =
     ucast (load16 (mem s) (sp s + 4)) * ucast (load16 (mem s) (sp s + 8)) +
     push_bit 16 (ucast (load16 (mem s) (sp s + 4) * load16 (mem s) (sp s + 10) +
                         load16 (mem s) (sp s + 6) * load16 (mem s) (sp s + 8)))"
    unfolding mulsi3_spec(3) by (simp add: word_cat_eq mult.commute)
qed

section \<open>Iterations of the \<open>.Lmul_hi\<close> loop\<close>

lemma hi_iter_spec:
  assumes "rbs s = RB0"
  shows "rbs (hi_iter s) = RB0"
    and "regs (hi_iter s) (RB0, AX) = drop_bit 1 (regs s (RB0, AX))"
  using assms
  by (simp_all add: hi_iter_def hi_add_def instr_defs vreg_defs Let_def del: drop_bit_Suc)

lemma hi_iters_spec:
  assumes "rbs s = RB0"
  shows "rbs ((hi_iter ^^ k) s) = RB0"
    and "regs ((hi_iter ^^ k) s) (RB0, AX) = drop_bit k (regs s (RB0, AX))"
proof -
  have "rbs ((hi_iter ^^ k) s) = RB0 \<and>
        regs ((hi_iter ^^ k) s) (RB0, AX) = drop_bit k (regs s (RB0, AX))"
  proof (induction k)
    case 0
    show ?case using assms by simp
  next
    case (Suc k)
    then show ?case
      by (simp add: hi_iter_spec drop_bit_drop_bit del: drop_bit_Suc)
  qed
  then show "rbs ((hi_iter ^^ k) s) = RB0"
    and "regs ((hi_iter ^^ k) s) (RB0, AX) = drop_bit k (regs s (RB0, AX))"
    by simp_all
qed

lemma Lmul_hi_loop_iters:
  "rbs s = RB0 \<Longrightarrow> drop_bit n (regs s (RB0, AX)) = 0 \<Longrightarrow>
   \<exists>k. k \<le> n \<and> Lmul_hi_loop s = hi_exit ((hi_iter ^^ k) s) \<and>
       regs ((hi_iter ^^ k) s) (RB0, AX) = 0"
proof (induction n arbitrary: s rule: less_induct)
  case (less n)
  note b0 = \<open>rbs s = RB0\<close>
  define a where "a = regs s (RB0, AX)"
  define a1 where "a1 = drop_bit 1 a"
  define a2 where "a2 = drop_bit 1 a1"
  have n0: "drop_bit n a = 0" using less.prems by (simp add: a_def)
  have da: "a = 2 * a1 + (if bit a 0 then 1 else 0)"
    unfolding a1_def by (rule word_lsb_decomp)
  have da1: "a1 = 2 * a2 + (if bit a1 0 then 1 else 0)"
    unfolding a2_def by (rule word_lsb_decomp)
  define s1 where "s1 = shrw1 (Rp AX) s"
  define s2 where "s2 = cmpw (Rp AX) (Imm 0) s1"
  define s3 where "s3 = shrw1 (Rp AX) (shlw1 (Rp BC) s2)"
  define s4 where "s4 = cmpw (Rp AX) (Imm 0) s3"
  have eq: "Lmul_hi_loop s =
     (if cy s1 then Lmul_hi_loop (hi_add s1)
      else if z s2 then ret s2
      else if cy s3 then Lmul_hi_loop (hi_add s3)
      else if \<not> z s4 then Lmul_hi_loop (shlw1 (Rp BC) s4)
      else ret s4)"
    unfolding s1_def s2_def s3_def s4_def
    by (rule trans [OF Lmul_hi_loop_unfold]) (simp only: Let_def)
  have fl: "cy s1 = bit a 0" "z s2 = (a1 = 0)" "cy s3 = bit a1 0" "z s4 = (a2 = 0)"
    using b0 by (simp_all add: s1_def s2_def s3_def s4_def instr_defs Let_def a_def a1_def a2_def
        del: drop_bit_Suc)
  have i1: "hi_iter s = (if cy s1 then hi_add s1 else shlw1 (Rp BC) s2)"
    by (simp add: hi_iter_def s1_def s2_def Let_def)
  have ex: "hi_exit s = ret s2"
    by (simp add: hi_exit_def s1_def s2_def)
  have i2: "\<not> cy s1 \<Longrightarrow> hi_iter (hi_iter s) = (if cy s3 then hi_add s3 else shlw1 (Rp BC) s4)"
    by (simp add: i1) (simp add: hi_iter_def s3_def s4_def Let_def)
  note I1 = hi_iter_spec [OF b0]
  note I2 = hi_iter_spec [OF I1(1)]
  consider (add1) "bit a 0" | (done1) "\<not> bit a 0" "a1 = 0"
    | (two) "\<not> bit a 0" "a1 \<noteq> 0" "bit a1 0 \<or> a2 \<noteq> 0"
    | (done2) "\<not> bit a 0" "a1 \<noteq> 0" "\<not> bit a1 0" "a2 = 0"
    by blast
  then show ?case
  proof cases
    case add1
    then have "a \<noteq> 0" by auto
    then have "n \<noteq> 0" using n0 by (cases n) simp_all
    then have n1: "n - 1 + 1 = n" by simp
    have d: "drop_bit (n - 1) (regs (hi_iter s) (RB0, AX)) = 0"
      using n0 n1 by (simp only: I1(2) a_def[symmetric] drop_bit_drop_bit)
    from less.IH [of "n - 1" "hi_iter s", OF _ I1(1) d] \<open>n \<noteq> 0\<close>
    obtain k where k: "k \<le> n - 1" "Lmul_hi_loop (hi_iter s) = hi_exit ((hi_iter ^^ k) (hi_iter s))"
      "regs ((hi_iter ^^ k) (hi_iter s)) (RB0, AX) = 0"
      by auto
    have "Lmul_hi_loop s = Lmul_hi_loop (hi_iter s)"
      using add1 by (simp add: eq fl i1)
    then show ?thesis
      using k \<open>n \<noteq> 0\<close> by (intro exI [of _ "Suc k"]) (simp add: funpow_swap1)
  next
    case done1
    then have "a = 0" using da by simp
    moreover have "Lmul_hi_loop s = hi_exit s" using done1 by (simp add: eq fl ex)
    ultimately show ?thesis
      by (intro exI [of _ 0]) (simp add: a_def)
  next
    case two
    have "a \<noteq> 0" using two by (auto simp: a1_def)
    then have "n \<noteq> 0" using n0 by (cases n) simp_all
    have "n \<noteq> 1" using two n0 by (auto simp: a1_def)
    with \<open>n \<noteq> 0\<close> have n2: "n - 2 + (1 + 1) = n" by simp
    have d: "drop_bit (n - 2) (regs (hi_iter (hi_iter s)) (RB0, AX)) = 0"
      using n0 n2 by (simp only: I1(2) I2(2) a_def[symmetric] drop_bit_drop_bit)
    from less.IH [of "n - 2" "hi_iter (hi_iter s)", OF _ I2(1) d] \<open>n \<noteq> 0\<close>
    obtain k where k: "k \<le> n - 2"
      "Lmul_hi_loop (hi_iter (hi_iter s)) = hi_exit ((hi_iter ^^ k) (hi_iter (hi_iter s)))"
      "regs ((hi_iter ^^ k) (hi_iter (hi_iter s))) (RB0, AX) = 0"
      by auto
    have "Lmul_hi_loop s = Lmul_hi_loop (hi_iter (hi_iter s))"
      using two by (auto simp add: eq fl i2)
    then show ?thesis
      using k \<open>n \<noteq> 0\<close> \<open>n \<noteq> 1\<close> by (intro exI [of _ "Suc (Suc k)"]) (simp add: funpow_swap1)
  next
    case done2
    then have "a1 = 0" using da1 by simp
    with done2 show ?thesis by simp
  qed
qed

section \<open>The claims about \<open>___mulhi3\<close> and about termination\<close>

lemma mulhi3_spec:
  assumes "rbs s = RB0"
  shows "regs (mulhi3 s) r8 = load16 (mem s) (sp s + 4) * load16 (mem s) (sp s + 6)"
    and "rbs (mulhi3 s) = RB0" and "sp (mulhi3 s) = sp s + 4" and "mem (mulhi3 s) = mem s"
    and "l \<noteq> (RB0, AX) \<and> l \<noteq> (RB0, BC) \<and> l \<noteq> r8 \<Longrightarrow> regs (mulhi3 s) l = regs s l"
proof -
  define p where "p = run [movw (Saddr r8) (Imm 0), movw (Rp AX) (SpRel 6),
                           movw (Rp BC) (Rp AX), movw (Rp AX) (SpRel 4)] s"
  have p: "rbs p = RB0" "sp p = sp s" "mem p = mem s" "regs p r8 = 0"
    "regs p (RB0, AX) = load16 (mem s) (sp s + 4)" "regs p (RB0, BC) = load16 (mem s) (sp s + 6)"
    using assms by (simp_all add: p_def instr_defs vreg_defs)
  have pf: "regs p l = regs s l" if "l \<noteq> (RB0, AX)" "l \<noteq> (RB0, BC)" "l \<noteq> r8" for l
    using that assms by (simp add: p_def instr_defs vreg_defs)
  have eq: "mulhi3 s = Lmul_hi p" by (simp add: mulhi3_def p_def)
  note L = Lmul_hi_spec [OF p(1)]
  show "regs (mulhi3 s) r8 = load16 (mem s) (sp s + 4) * load16 (mem s) (sp s + 6)"
    by (simp add: eq L(4) p)
  show "rbs (mulhi3 s) = RB0" by (simp add: eq L(1))
  show "sp (mulhi3 s) = sp s + 4" by (simp add: eq L(2) p)
  show "mem (mulhi3 s) = mem s" by (simp add: eq L(3) p)
  show "regs (mulhi3 s) l = regs s l" if "l \<noteq> (RB0, AX) \<and> l \<noteq> (RB0, BC) \<and> l \<noteq> r8"
    using that by (simp add: eq L(5) pf)
qed

text \<open>
  C2: called with register bank 0 selected, as every routine of the file is,
  \<open>___mulhi3\<close> returns in R8 the low 16 bits of the product of the two 16-bit operands
  at \<open>[sp+4]\<close> and \<open>[sp+6]\<close>.
\<close>

theorem C2_mulhi3_low_product:
  "rbs s = RB0 \<Longrightarrow>
   regs (mulhi3 s) r8 = load16 (mem s) (sp s + 4) * load16 (mem s) (sp s + 6)"
  by (rule mulhi3_spec(1))

theorem C2_mulhi3_low_product_witness:
  "rbs \<lparr>rbs = RB0, regs = (\<lambda>_. 0), cy = False, z = False, sp = 0x1000,
        mem = (\<lambda>_. 0)(0x1004 := 0xE8, 0x1005 := 0x03, 0x1006 := 0x64)\<rparr> = RB0 \<and>
   regs (mulhi3 \<lparr>rbs = RB0, regs = (\<lambda>_. 0), cy = False, z = False, sp = 0x1000,
        mem = (\<lambda>_. 0)(0x1004 := 0xE8, 0x1005 := 0x03, 0x1006 := 0x64)\<rparr>) r8 = 0x86A0"
  using C2_mulhi3_low_product [of "\<lparr>rbs = RB0, regs = (\<lambda>_. 0), cy = False, z = False, sp = 0x1000,
        mem = (\<lambda>_. 0)(0x1004 := 0xE8, 0x1005 := 0x03, 0x1006 := 0x64)\<rparr>"]
  by (simp add: load16_def word_cat_eq)

text \<open>
  C3: both shift-and-add loops end. Each pass shifts the multiplier right by one, so
  after at most 16 passes it is zero: the loop of \<open>___mulsi3\<close> is between 1 and 16
  repetitions of its step followed by \<open>.Lmul_hisi_done\<close>, and the loop of \<open>.Lmul_hi\<close>,
  entered in bank 0, is at most 16 passes followed by the pass that finds the multiplier
  zero and returns. Termination itself is proved for every state, where the loops are
  defined, so both routines return.
\<close>

theorem C3_loops_terminate:
  "(\<exists>k. 1 \<le> k \<and> k \<le> 16 \<and>
        mulsi3 ra1 ra2 s = Lmul_hisi_done ((Lmul_hisi_step ^^ k) (mulsi3_setup ra1 ra2 s)) \<and>
        regs ((Lmul_hisi_step ^^ k) (mulsi3_setup ra1 ra2 s)) (RB0, AX) = 0) \<and>
   (rbs s = RB0 \<longrightarrow>
      (\<exists>k. k \<le> 16 \<and> Lmul_hi_loop s = hi_exit ((hi_iter ^^ k) s) \<and>
           regs ((hi_iter ^^ k) s) (RB0, AX) = 0 \<and>
           sp (Lmul_hi_loop s) = sp s + 4) \<and>
      regs (Lmul_hisi_step s) (RB0, AX) = drop_bit 1 (regs s (RB0, AX)) \<and>
      regs (hi_iter s) (RB0, AX) = drop_bit 1 (regs s (RB0, AX)))"
proof (intro conjI impI)
  show "\<exists>k. 1 \<le> k \<and> k \<le> 16 \<and>
        mulsi3 ra1 ra2 s = Lmul_hisi_done ((Lmul_hisi_step ^^ k) (mulsi3_setup ra1 ra2 s)) \<and>
        regs ((Lmul_hisi_step ^^ k) (mulsi3_setup ra1 ra2 s)) (RB0, AX) = 0"
    by (rule mulsi3_spec(8))
next
  assume b0: "rbs s = RB0"
  have "drop_bit 16 (regs s (RB0, AX)) = 0" by simp
  from Lmul_hi_loop_iters [OF b0 this] Lmul_hi_loop_spec [OF b0]
  show "\<exists>k. k \<le> 16 \<and> Lmul_hi_loop s = hi_exit ((hi_iter ^^ k) s) \<and>
           regs ((hi_iter ^^ k) s) (RB0, AX) = 0 \<and> sp (Lmul_hi_loop s) = sp s + 4"
    by blast
  show "regs (Lmul_hisi_step s) (RB0, AX) = drop_bit 1 (regs s (RB0, AX))"
    using b0 by (rule step_ax)
  show "regs (hi_iter s) (RB0, AX) = drop_bit 1 (regs s (RB0, AX))"
    using b0 by (rule hi_iter_spec(2))
qed

theorem C3_loops_terminate_witness:
  "rbs \<lparr>rbs = RB0, regs = (\<lambda>_. 0)((RB0, AX) := 0xFFFF, (RB0, BC) := 0xFFFF),
        cy = False, z = False, sp = 0x1000, mem = (\<lambda>_. 0)\<rparr> = RB0 \<and>
   (\<exists>k. k \<le> 16 \<and>
      Lmul_hi_loop \<lparr>rbs = RB0, regs = (\<lambda>_. 0)((RB0, AX) := 0xFFFF, (RB0, BC) := 0xFFFF),
        cy = False, z = False, sp = 0x1000, mem = (\<lambda>_. 0)\<rparr> =
      hi_exit ((hi_iter ^^ k) \<lparr>rbs = RB0, regs = (\<lambda>_. 0)((RB0, AX) := 0xFFFF, (RB0, BC) := 0xFFFF),
        cy = False, z = False, sp = 0x1000, mem = (\<lambda>_. 0)\<rparr>))"
  using C3_loops_terminate [of 0 0 "\<lparr>rbs = RB0, regs = (\<lambda>_. 0)((RB0, AX) := 0xFFFF, (RB0, BC) := 0xFFFF),
        cy = False, z = False, sp = 0x1000, mem = (\<lambda>_. 0)\<rparr>"]
  by auto

section \<open>The claims about \<open>___mulsi3\<close>\<close>

lemma cat_bytes32:
  "(word_cat (word_cat (ucast (drop_bit 24 a) :: 8 word) (ucast (drop_bit 16 a) :: 8 word) :: 16 word)
             (word_cat (ucast (drop_bit 8 a) :: 8 word) (ucast a :: 8 word) :: 16 word) :: 32 word) = a"
  by (rule bit_word_eqI) (auto simp add: bit_simps)

lemma call_frame_args: "arg_a (call_frame a b) = a" "arg_b (call_frame a b) = b"
  by (simp_all add: arg_a_def arg_b_def call_frame_def load32_def load16_def cat_bytes32)

text \<open>
  C4: the helper serves signed and unsigned multiplication alike. The low 32 bits of the
  product of the two's-complement readings of the operands are the low 32 bits of the
  product of their unsigned readings, and \<open>___mulsi3\<close> returns that value.
\<close>

theorem C4_signed_unsigned_alike:
  "(word_of_int (sint (arg_a s) * sint (arg_b s)) :: 32 word) =
     word_of_int (uint (arg_a s) * uint (arg_b s)) \<and>
   res32 (mulsi3 ra1 ra2 s) = word_of_int (sint (arg_a s) * sint (arg_b s)) \<and>
   res32 (mulsi3 ra1 ra2 s) = word_of_int (uint (arg_a s) * uint (arg_b s))"
  by (simp add: mulsi3_product)

lemma Lmul_hi_entry_order:
  assumes "rbs s = RB0"
  shows "regs (run [cmpw (Rp AX) (Rp BC), skc (xchw (Rp AX) (Rp BC))] s) (RB0, AX) =
           min (regs s (RB0, AX)) (regs s (RB0, BC))"
    and "regs (run [cmpw (Rp AX) (Rp BC), skc (xchw (Rp AX) (Rp BC))] s) (RB0, BC) =
           max (regs s (RB0, AX)) (regs s (RB0, BC))"
  using assms
  by (auto simp add: instr_defs Let_def word_less_nat_alt [symmetric] min_def max_def)

lemma mulhi3_entry_order:
  assumes "rbs s = RB0"
  shows "regs (run [movw (Saddr r8) (Imm 0), movw (Rp AX) (SpRel 6), movw (Rp BC) (Rp AX),
                    movw (Rp AX) (SpRel 4), cmpw (Rp AX) (Rp BC),
                    skc (xchw (Rp AX) (Rp BC))] s) (RB0, AX) =
           min (load16 (mem s) (sp s + 4)) (load16 (mem s) (sp s + 6))"
    and "regs (run [movw (Saddr r8) (Imm 0), movw (Rp AX) (SpRel 6), movw (Rp BC) (Rp AX),
                    movw (Rp AX) (SpRel 4), cmpw (Rp AX) (Rp BC),
                    skc (xchw (Rp AX) (Rp BC))] s) (RB0, BC) =
           max (load16 (mem s) (sp s + 4)) (load16 (mem s) (sp s + 6))"
  using assms
  by (auto simp add: instr_defs vreg_defs Let_def word_less_nat_alt [symmetric] min_def max_def)

text \<open>
  C5, as the code has it: the helpers are commutative. Two calls of \<open>___mulsi3\<close> whose
  arguments are exchanged return the same value, and so do two calls of \<open>___mulhi3\<close>
  (entered in bank 0). Inside, \<open>___mulsi3\<close> compares the low words of its operands,
  not the operands: its loop is entered from \<open>mulsi3_setup\<close> with the smaller low word
  as the multiplier in AX and the larger in R10. \<open>.Lmul_hi\<close> compares its two 16-bit
  factors: its loop is entered with the smaller in AX and the larger in BC, and for
  \<open>___mulhi3\<close> these factors are the two operands.
\<close>

theorem C5_commutative:
  "(arg_a s' = arg_b s \<and> arg_b s' = arg_a s \<longrightarrow>
      res32 (mulsi3 ra1 ra2 s') = res32 (mulsi3 ra1 ra2 s)) \<and>
   (rbs s = RB0 \<and> rbs s' = RB0 \<and>
    load16 (mem s') (sp s' + 4) = load16 (mem s) (sp s + 6) \<and>
    load16 (mem s') (sp s' + 6) = load16 (mem s) (sp s + 4) \<longrightarrow>
      regs (mulhi3 s') r8 = regs (mulhi3 s) r8) \<and>
   mulsi3 ra1 ra2 s = Lmul_hisi_loop (mulsi3_setup ra1 ra2 s) \<and>
   regs (mulsi3_setup ra1 ra2 s) (RB0, AX) =
     min (load16 (mem s) (sp s + 4)) (load16 (mem s) (sp s + 8)) \<and>
   regs (mulsi3_setup ra1 ra2 s) r10 =
     max (load16 (mem s) (sp s + 4)) (load16 (mem s) (sp s + 8)) \<and>
   Lmul_hi s = Lmul_hi_loop (run [cmpw (Rp AX) (Rp BC), skc (xchw (Rp AX) (Rp BC))] s) \<and>
   (rbs s = RB0 \<longrightarrow>
      regs (run [cmpw (Rp AX) (Rp BC), skc (xchw (Rp AX) (Rp BC))] s) (RB0, AX) =
        min (regs s (RB0, AX)) (regs s (RB0, BC)) \<and>
      regs (run [cmpw (Rp AX) (Rp BC), skc (xchw (Rp AX) (Rp BC))] s) (RB0, BC) =
        max (regs s (RB0, AX)) (regs s (RB0, BC))) \<and>
   mulhi3 s =
     Lmul_hi_loop (run [movw (Saddr r8) (Imm 0), movw (Rp AX) (SpRel 6), movw (Rp BC) (Rp AX),
                        movw (Rp AX) (SpRel 4), cmpw (Rp AX) (Rp BC),
                        skc (xchw (Rp AX) (Rp BC))] s) \<and>
   (rbs s = RB0 \<longrightarrow>
      regs (run [movw (Saddr r8) (Imm 0), movw (Rp AX) (SpRel 6), movw (Rp BC) (Rp AX),
                 movw (Rp AX) (SpRel 4), cmpw (Rp AX) (Rp BC),
                 skc (xchw (Rp AX) (Rp BC))] s) (RB0, AX) =
        min (load16 (mem s) (sp s + 4)) (load16 (mem s) (sp s + 6)) \<and>
      regs (run [movw (Saddr r8) (Imm 0), movw (Rp AX) (SpRel 6), movw (Rp BC) (Rp AX),
                 movw (Rp AX) (SpRel 4), cmpw (Rp AX) (Rp BC),
                 skc (xchw (Rp AX) (Rp BC))] s) (RB0, BC) =
        max (load16 (mem s) (sp s + 4)) (load16 (mem s) (sp s + 6)))"
proof (intro conjI impI)
  assume "arg_a s' = arg_b s \<and> arg_b s' = arg_a s"
  then show "res32 (mulsi3 ra1 ra2 s') = res32 (mulsi3 ra1 ra2 s)"
    by (simp add: mulsi3_product mult.commute)
next
  assume h: "rbs s = RB0 \<and> rbs s' = RB0 \<and>
    load16 (mem s') (sp s' + 4) = load16 (mem s) (sp s + 6) \<and>
    load16 (mem s') (sp s' + 6) = load16 (mem s) (sp s + 4)"
  then have "rbs s = RB0" "rbs s' = RB0" by simp_all
  then show "regs (mulhi3 s') r8 = regs (mulhi3 s) r8"
    using h by (simp add: mulhi3_spec(1) mult.commute)
next
  show "mulsi3 ra1 ra2 s = Lmul_hisi_loop (mulsi3_setup ra1 ra2 s)"
    by (rule mulsi3_def)
  show "regs (mulsi3_setup ra1 ra2 s) (RB0, AX) =
     min (load16 (mem s) (sp s + 4)) (load16 (mem s) (sp s + 8))"
    by (rule mulsi3_setup_spec(3))
  show "regs (mulsi3_setup ra1 ra2 s) r10 =
     max (load16 (mem s) (sp s + 4)) (load16 (mem s) (sp s + 8))"
    by (rule mulsi3_setup_spec(4))
  show "Lmul_hi s = Lmul_hi_loop (run [cmpw (Rp AX) (Rp BC), skc (xchw (Rp AX) (Rp BC))] s)"
    by (rule Lmul_hi_def)
  show "mulhi3 s =
     Lmul_hi_loop (run [movw (Saddr r8) (Imm 0), movw (Rp AX) (SpRel 6), movw (Rp BC) (Rp AX),
                        movw (Rp AX) (SpRel 4), cmpw (Rp AX) (Rp BC),
                        skc (xchw (Rp AX) (Rp BC))] s)"
    by (simp add: mulhi3_def Lmul_hi_def)
next
  assume b0: "rbs s = RB0"
  show "regs (run [cmpw (Rp AX) (Rp BC), skc (xchw (Rp AX) (Rp BC))] s) (RB0, AX) =
        min (regs s (RB0, AX)) (regs s (RB0, BC))"
    using b0 by (rule Lmul_hi_entry_order(1))
  show "regs (run [cmpw (Rp AX) (Rp BC), skc (xchw (Rp AX) (Rp BC))] s) (RB0, BC) =
        max (regs s (RB0, AX)) (regs s (RB0, BC))"
    using b0 by (rule Lmul_hi_entry_order(2))
next
  assume b0: "rbs s = RB0"
  show "regs (run [movw (Saddr r8) (Imm 0), movw (Rp AX) (SpRel 6), movw (Rp BC) (Rp AX),
                 movw (Rp AX) (SpRel 4), cmpw (Rp AX) (Rp BC),
                 skc (xchw (Rp AX) (Rp BC))] s) (RB0, AX) =
        min (load16 (mem s) (sp s + 4)) (load16 (mem s) (sp s + 6))"
    using b0 by (rule mulhi3_entry_order(1))
  show "regs (run [movw (Saddr r8) (Imm 0), movw (Rp AX) (SpRel 6), movw (Rp BC) (Rp AX),
                 movw (Rp AX) (SpRel 4), cmpw (Rp AX) (Rp BC),
                 skc (xchw (Rp AX) (Rp BC))] s) (RB0, BC) =
        max (load16 (mem s) (sp s + 4)) (load16 (mem s) (sp s + 6))"
    using b0 by (rule mulhi3_entry_order(2))
qed

theorem C5_commutative_witness:
  "(arg_a (call_frame 5 70000) = arg_b (call_frame 70000 5) \<and>
    arg_b (call_frame 5 70000) = arg_a (call_frame 70000 5)) \<and>
   rbs (call_frame 70000 5) = RB0 \<and> rbs (call_frame 5 70000) = RB0 \<and>
   res32 (mulsi3 0 0 (call_frame 5 70000)) = res32 (mulsi3 0 0 (call_frame 70000 5)) \<and>
   regs (mulsi3_setup 0 0 (call_frame 70000 5)) (RB0, AX) = 5 \<and>
   load16 (mem (call_frame 0x50003 0)) (sp (call_frame 0x50003 0) + 4) =
     load16 (mem (call_frame 0x30005 0)) (sp (call_frame 0x30005 0) + 6) \<and>
   load16 (mem (call_frame 0x50003 0)) (sp (call_frame 0x50003 0) + 6) =
     load16 (mem (call_frame 0x30005 0)) (sp (call_frame 0x30005 0) + 4) \<and>
   regs (mulhi3 (call_frame 0x50003 0)) r8 = regs (mulhi3 (call_frame 0x30005 0)) r8 \<and>
   regs (run [movw (Saddr r8) (Imm 0), movw (Rp AX) (SpRel 6), movw (Rp BC) (Rp AX),
              movw (Rp AX) (SpRel 4), cmpw (Rp AX) (Rp BC),
              skc (xchw (Rp AX) (Rp BC))] (call_frame 0x30005 0)) (RB0, AX) = 3"
  using C5_commutative [of "call_frame 5 70000" "call_frame 70000 5" 0 0]
    C5_commutative [of "call_frame 0x50003 0" "call_frame 0x30005 0" 0 0]
  by (simp add: call_frame_args) (simp add: call_frame_def load16_def word_cat_eq)

text \<open>
  C5 with the smaller operand driving the loop of \<open>___mulsi3\<close> does not hold: called
  with \<open>65536\<close> and \<open>5\<close>, the main loop is entered with the multiplier 0, the low
  word of the larger operand, and 5 as the multiplicand.
\<close>

theorem C5_operand_order_counterexample:
  "arg_a (call_frame 65536 5) = 65536 \<and> arg_b (call_frame 65536 5) = 5 \<and>
   mulsi3 0 0 (call_frame 65536 5) = Lmul_hisi_loop (mulsi3_setup 0 0 (call_frame 65536 5)) \<and>
   regs (mulsi3_setup 0 0 (call_frame 65536 5)) (RB0, AX) = 0 \<and>
   regs (mulsi3_setup 0 0 (call_frame 65536 5)) r10 = 5"
  by (simp add: call_frame_args mulsi3_def mulsi3_setup_spec(3,4))
    (simp add: call_frame_def load16_def word_cat_eq)

lemma cross_term_skip:
  assumes "rbs s = RB0"
    and "load16 (mem s) (sp s + hi) = 0 \<or> load16 (mem s) (sp s + lo) = 0"
  shows "mem (cross_term ra hi lo s) = mem s" and "sp (cross_term ra hi lo s) = sp s"
    and "regs (cross_term ra hi lo s) r8 = regs s r8"
  using assms by (auto simp add: cross_term_def Let_def instr_defs vreg_defs)

lemma Lmul_hisi_loop_exit:
  assumes b0: "rbs s = RB0"
  shows "\<exists>k. 1 \<le> k \<and> k \<le> 16 \<and> Lmul_hisi_loop s = Lmul_hisi_done ((Lmul_hisi_step ^^ k) s) \<and>
           regs ((Lmul_hisi_step ^^ k) s) (RB0, AX) = 0 \<and>
           (\<forall>j. 1 \<le> j \<and> j < k \<longrightarrow> regs ((Lmul_hisi_step ^^ j) s) (RB0, AX) \<noteq> 0)"
proof -
  have "drop_bit 16 (regs s (RB0, AX)) = 0" by simp
  from Lmul_hisi_loop_steps [OF b0 this] show ?thesis
    unfolding steps_ax [OF b0] by simp
qed

text \<open>
  C6: zero annihilates and one is neutral. If either argument of \<open>___mulsi3\<close> is zero the
  result is zero, and if the second argument is one the result is the first. A cross term
  (entered in bank 0) one of whose words is zero is skipped without a call: it writes
  nothing to the stack and leaves R8 as it was. The main loop (entered in bank 0) leaves
  after the first step that finds the remaining multiplier zero.
\<close>

theorem C6_zero_and_one:
  "(arg_b s = 0 \<longrightarrow> res32 (mulsi3 ra1 ra2 s) = 0) \<and>
   (arg_a s = 0 \<longrightarrow> res32 (mulsi3 ra1 ra2 s) = 0) \<and>
   (arg_b s = 1 \<longrightarrow> res32 (mulsi3 ra1 ra2 s) = arg_a s) \<and>
   (rbs s = RB0 \<and> (load16 (mem s) (sp s + hi) = 0 \<or> load16 (mem s) (sp s + lo) = 0) \<longrightarrow>
      mem (cross_term ra hi lo s) = mem s \<and> sp (cross_term ra hi lo s) = sp s \<and>
      regs (cross_term ra hi lo s) r8 = regs s r8) \<and>
   (rbs s = RB0 \<longrightarrow>
      (\<exists>k. 1 \<le> k \<and> k \<le> 16 \<and>
           Lmul_hisi_loop s = Lmul_hisi_done ((Lmul_hisi_step ^^ k) s) \<and>
           regs ((Lmul_hisi_step ^^ k) s) (RB0, AX) = 0 \<and>
           (\<forall>j. 1 \<le> j \<and> j < k \<longrightarrow> regs ((Lmul_hisi_step ^^ j) s) (RB0, AX) \<noteq> 0)))"
proof (intro conjI impI)
  assume "arg_b s = 0"
  then show "res32 (mulsi3 ra1 ra2 s) = 0" by (simp add: mulsi3_product)
next
  assume "arg_a s = 0"
  then show "res32 (mulsi3 ra1 ra2 s) = 0" by (simp add: mulsi3_product)
next
  assume "arg_b s = 1"
  then show "res32 (mulsi3 ra1 ra2 s) = arg_a s" by (simp add: mulsi3_product)
next
  assume h: "rbs s = RB0 \<and> (load16 (mem s) (sp s + hi) = 0 \<or> load16 (mem s) (sp s + lo) = 0)"
  then have b0: "rbs s = RB0"
    and w: "load16 (mem s) (sp s + hi) = 0 \<or> load16 (mem s) (sp s + lo) = 0"
    by simp_all
  show "mem (cross_term ra hi lo s) = mem s" using b0 w by (rule cross_term_skip(1))
  show "sp (cross_term ra hi lo s) = sp s" using b0 w by (rule cross_term_skip(2))
  show "regs (cross_term ra hi lo s) r8 = regs s r8" using b0 w by (rule cross_term_skip(3))
next
  assume "rbs s = RB0"
  then show "\<exists>k. 1 \<le> k \<and> k \<le> 16 \<and>
           Lmul_hisi_loop s = Lmul_hisi_done ((Lmul_hisi_step ^^ k) s) \<and>
           regs ((Lmul_hisi_step ^^ k) s) (RB0, AX) = 0 \<and>
           (\<forall>j. 1 \<le> j \<and> j < k \<longrightarrow> regs ((Lmul_hisi_step ^^ j) s) (RB0, AX) \<noteq> 0)"
    by (rule Lmul_hisi_loop_exit)
qed

theorem C6_zero_and_one_witness:
  "arg_b (call_frame 123456789 0) = 0 \<and> res32 (mulsi3 0 0 (call_frame 123456789 0)) = 0 \<and>
   arg_a (call_frame 0 123456789) = 0 \<and> res32 (mulsi3 0 0 (call_frame 0 123456789)) = 0 \<and>
   arg_b (call_frame 123456789 1) = 1 \<and>
   res32 (mulsi3 0 0 (call_frame 123456789 1)) = 123456789 \<and>
   rbs (call_frame 123456789 1) = RB0 \<and>
   load16 (mem (call_frame 123456789 1)) (sp (call_frame 123456789 1) + 10) = 0 \<and>
   mem (cross_term 0 10 4 (call_frame 123456789 1)) = mem (call_frame 123456789 1)"
  using C6_zero_and_one [of "call_frame 123456789 0" 0 0 10 4 0]
    C6_zero_and_one [of "call_frame 0 123456789" 0 0 10 4 0]
    C6_zero_and_one [of "call_frame 123456789 1" 0 0 10 4 0]
  by (simp add: call_frame_args) (simp add: call_frame_def load16_def word_cat_eq)

lemma mulsi3_scratch:
  "regs (mulsi3 ra1 ra2 s) (RB0, AX) = regs (mulsi3 ra1 ra2 s) r10"
proof -
  from mulsi3_spec(8) [of ra1 ra2 s]
  obtain k where k: "mulsi3 ra1 ra2 s = Lmul_hisi_done ((Lmul_hisi_step ^^ k) (mulsi3_setup ra1 ra2 s))"
    by blast
  have "rbs ((Lmul_hisi_step ^^ k) (mulsi3_setup ra1 ra2 s)) = RB0"
    using mulsi3_setup_spec(1) by (rule steps_rbs)
  from Lmul_hisi_done_spec(5,6) [OF this] show ?thesis
    by (simp add: k)
qed

lemma res32_high: "regs s r10 = ucast (drop_bit 16 (res32 s))"
  unfolding res32_def by (rule bit_word_eqI) (auto simp add: bit_simps)

text \<open>
  C8, as the code has it: \<open>___mulsi3\<close> returns with R16/R17 and R18/R19 holding their
  entry values. Besides the result in R8..R11 it overwrites its working registers AX and
  BC of bank 0 and the flags, and it writes below the entry stack pointer (the two saved
  pairs and the return addresses of its calls); every other register pair and every byte
  of memory outside the eight below the entry stack pointer is unchanged, bank 0 is
  selected, and the return address has been popped.
\<close>

theorem C8_frame:
  "regs (mulsi3 ra1 ra2 s) r16 = regs s r16 \<and>
   regs (mulsi3 ra1 ra2 s) r18 = regs s r18 \<and>
   (\<forall>l. l \<noteq> (RB0, AX) \<and> l \<noteq> (RB0, BC) \<and> l \<noteq> r8 \<and> l \<noteq> r10 \<longrightarrow>
        regs (mulsi3 ra1 ra2 s) l = regs s l) \<and>
   (\<forall>a. a \<noteq> sp s - 1 \<and> a \<noteq> sp s - 2 \<and> a \<noteq> sp s - 3 \<and> a \<noteq> sp s - 4 \<and>
        a \<noteq> sp s - 6 \<and> a \<noteq> sp s - 7 \<and> a \<noteq> sp s - 8 \<longrightarrow>
        mem (mulsi3 ra1 ra2 s) a = mem s a) \<and>
   rbs (mulsi3 ra1 ra2 s) = RB0 \<and> sp (mulsi3 ra1 ra2 s) = sp s + 4"
  using mulsi3_spec(1,2,4,5) [of ra1 ra2 s] mulsi3_spec(6,7) [where ?ra1.0 = ra1 and ?ra2.0 = ra2 and s = s]
  by blast

theorem C8_frame_witness:
  "regs (mulsi3 0 0 ((call_frame 70000 3)\<lparr>regs := (\<lambda>_. 0)(r16 := 0x1234, r18 := 0x5678, (RB3, DE) := 9)\<rparr>)) r16 = 0x1234 \<and>
   regs (mulsi3 0 0 ((call_frame 70000 3)\<lparr>regs := (\<lambda>_. 0)(r16 := 0x1234, r18 := 0x5678, (RB3, DE) := 9)\<rparr>)) r18 = 0x5678 \<and>
   ((RB3, DE) \<noteq> (RB0, AX) \<and> (RB3, DE) \<noteq> (RB0, BC) \<and> (RB3, DE) \<noteq> r8 \<and> (RB3, DE) \<noteq> r10) \<and>
   regs (mulsi3 0 0 ((call_frame 70000 3)\<lparr>regs := (\<lambda>_. 0)(r16 := 0x1234, r18 := 0x5678, (RB3, DE) := 9)\<rparr>)) (RB3, DE) = 9 \<and>
   mem (mulsi3 0 0 ((call_frame 70000 3)\<lparr>regs := (\<lambda>_. 0)(r16 := 0x1234, r18 := 0x5678, (RB3, DE) := 9)\<rparr>)) 0x1004 = 0x70"
proof -
  let ?s = "(call_frame 70000 3)\<lparr>regs := (\<lambda>_. 0)(r16 := 0x1234, r18 := 0x5678, (RB3, DE) := 9)\<rparr>"
  note F = C8_frame [of 0 0 ?s]
  have n: "(RB3, DE) \<noteq> (RB0, AX) \<and> (RB3, DE) \<noteq> (RB0, BC) \<and> (RB3, DE) \<noteq> r8 \<and> (RB3, DE) \<noteq> r10"
    by (simp add: vreg_defs)
  have a: "(0x1004 :: 16 word) \<noteq> sp ?s - 1 \<and> 0x1004 \<noteq> sp ?s - 2 \<and> 0x1004 \<noteq> sp ?s - 3 \<and>
     0x1004 \<noteq> sp ?s - 4 \<and> 0x1004 \<noteq> sp ?s - 6 \<and> 0x1004 \<noteq> sp ?s - 7 \<and> 0x1004 \<noteq> sp ?s - 8"
    by (simp add: call_frame_def)
  from F have "regs (mulsi3 0 0 ?s) (RB3, DE) = regs ?s (RB3, DE)" using n by blast
  moreover from F have "mem (mulsi3 0 0 ?s) 0x1004 = mem ?s 0x1004" using a by blast
  ultimately show ?thesis using F n
    by (simp add: vreg_defs call_frame_def)
qed

text \<open>
  C8 with R8..R11 as the only registers that change does not hold: on return AX of bank 0
  holds the high word of the result, not its entry value. Here
  \<open>70000 * 3 = 210000 = 0x33450\<close>, so AX is 3 after a call that found it 0.
\<close>

theorem C8_only_output_counterexample:
  "regs (mulsi3 0 0 (call_frame 70000 3)) (RB0, AX) = 3 \<and>
   regs (call_frame 70000 3) (RB0, AX) = 0"
proof
  have "res32 (mulsi3 0 0 (call_frame 70000 3)) = 210000"
    by (simp add: mulsi3_product call_frame_args)
  then show "regs (mulsi3 0 0 (call_frame 70000 3)) (RB0, AX) = 3"
    by (simp add: mulsi3_scratch res32_high drop_bit_eq_div)
  show "regs (call_frame 70000 3) (RB0, AX) = 0"
    by (simp add: call_frame_def)
qed

section \<open>The loop of \<open>f1\<close>\<close>

lemma sint_succ: "sint (i :: 32 word) < sint (n :: 32 word) \<Longrightarrow> sint (i + 1) = sint i + 1"
proof -
  assume "sint i < sint n"
  moreover have "sint n < 2 ^ 31" using sint_lt [of n] by simp
  moreover have "- (2 ^ 31) \<le> sint i" using sint_ge [of i] by simp
  ultimately have "- (2 ^ 31) \<le> sint i + 1 \<and> sint i + 1 < 2 ^ 31" by simp
  then show ?thesis
    by (simp add: sint_word_ariths signed_take_bit_int_eq_self)
qed

termination f1_loop
  by (relation "measure (\<lambda>(i, n, x, y, h). nat (sint n - sint i))") (simp_all add: sint_succ)

declare f1_loop.simps [simp del]

lemma sint_of_nat_small: "k < 2 ^ 31 \<Longrightarrow> sint (of_nat k :: 32 word) = int k"
proof -
  assume k: "k < 2 ^ 31"
  then have "int k < 2 ^ 31" by (metis of_nat_less_iff of_nat_numeral of_nat_power)
  then show ?thesis
    by (simp add: signed_of_nat signed_take_bit_int_eq_self)
qed

lemma f1_loop_from:
  fixes n :: "32 word"
  defines "N \<equiv> nat (sint n)"
  assumes alloc: "\<forall>i<N. x + i \<in> dom (cells h) \<and> y + i \<in> dom (cells h)"
    and disj: "\<forall>i<N. \<forall>j<N. x + i \<noteq> y + j"
  shows "k \<le> N \<Longrightarrow> f1_loop (of_nat k) n x y (f1_after k x y h) = Inr (f1_after N x y h)"
proof (induction "N - k" arbitrary: k)
  case 0
  then have kN: "k = N" by simp
  have "N < 2 ^ 31" using sint_lt [of n] by (simp add: N_def)
  then have "sint (of_nat N :: 32 word) = int N" by (rule sint_of_nat_small)
  then have "\<not> sint (of_nat N :: 32 word) < sint n" by (simp add: N_def)
  then show ?case
    by (subst f1_loop.simps) (simp add: kN)
next
  case (Suc d)
  then have kN: "k < N" and d: "d = N - Suc k" and le: "Suc k \<le> N" by simp_all
  have "N < 2 ^ 31" using sint_lt [of n] by (simp add: N_def)
  then have "k < 2 ^ 31" using kN by simp
  then have sk: "sint (of_nat k :: 32 word) = int k" by (rule sint_of_nat_small)
  have lt: "int k < sint n" using kN by (simp add: N_def)
  from alloc kN obtain v w where v: "cells h (x + k) = Some v" and w: "cells h (y + k) = Some w"
    by (auto simp: dom_def)
  have xk: "\<not> (y \<le> x + k \<and> x + k < y + k)"
  proof
    assume a: "y \<le> x + k \<and> x + k < y + k"
    then have "x + k = y + (x + k - y)" and "x + k - y < N" using kN by linarith+
    with disj kN show False by blast
  qed
  have ld: "load_int (f1_after k x y h) (x + k) = Inr v"
    using xk by (auto simp add: load_int_def f1_after_def v)
  have st: "store_int (f1_after k x y h) (y + k) (push_bit 3 v) = Inr (f1_after (Suc k) x y h)"
    by (auto simp add: store_int_def f1_after_def w v fun_eq_iff)
  have nx: "(of_nat k :: 32 word) + 1 = of_nat (Suc k)" by simp
  have "f1_loop (of_nat k) n x y (f1_after k x y h) =
          f1_loop (of_nat (Suc k)) n x y (f1_after (Suc k) x y h)"
    by (subst f1_loop.simps) (simp add: lt sk ld st nx del: of_nat_Suc)
  also have "\<dots> = Inr (f1_after N x y h)"
    using Suc.hyps(1) [OF d le] .
  finally show ?case .
qed

text \<open>
  C9, as the code has it: for arrays \<open>x\<close> and \<open>y\<close> of at least \<open>n\<close> allocated
  cells that do not overlap, \<open>f1\<close> returns normally; afterwards \<open>y[i]\<close> holds
  \<open>x[i] * 8\<close> truncated to 32 bits for every \<open>0 \<le> i < n\<close>, the stores went to
  \<open>y[0]\<close>, \<open>y[1]\<close>, ... in this order and to nothing else, so \<open>x\<close> and every other
  cell are unchanged, and for \<open>n \<le> 0\<close> the heap is untouched.
\<close>

theorem C9_f1_shifts:
  "(\<forall>i<nat (sint n). x + i \<in> dom (cells h) \<and> y + i \<in> dom (cells h)) \<Longrightarrow>
   (\<forall>i<nat (sint n). \<forall>j<nat (sint n). x + i \<noteq> y + j) \<Longrightarrow>
   \<exists>h'. f1 n x y h = Inr h' \<and>
     (\<forall>i<nat (sint n). cells h' (y + i) = Some (the (cells h (x + i)) * 8)) \<and>
     stores h' = stores h @ map (\<lambda>i. y + i) [0..<nat (sint n)] \<and>
     (\<forall>i<nat (sint n). cells h' (x + i) = cells h (x + i)) \<and>
     (\<forall>a. \<not> (y \<le> a \<and> a < y + nat (sint n)) \<longrightarrow> cells h' a = cells h a) \<and>
     (sint n \<le> 0 \<longrightarrow> h' = h)"
proof -
  assume alloc: "\<forall>i<nat (sint n). x + i \<in> dom (cells h) \<and> y + i \<in> dom (cells h)"
    and disj: "\<forall>i<nat (sint n). \<forall>j<nat (sint n). x + i \<noteq> y + j"
  define N where "N = nat (sint n)"
  have e: "(y \<le> a \<and> a < y) = False" for a by auto
  have "f1_after 0 x y h = h" by (simp add: f1_after_def e)
  with f1_loop_from [OF alloc disj, of 0] have r: "f1 n x y h = Inr (f1_after N x y h)"
    by (simp add: f1_def N_def)
  have xs: "cells (f1_after N x y h) (x + i) = cells h (x + i)" if "i < N" for i
  proof -
    have "\<not> (y \<le> x + i \<and> x + i < y + N)"
    proof
      assume "y \<le> x + i \<and> x + i < y + N"
      then have "x + i = y + (x + i - y)" and "x + i - y < N" by linarith+
      with disj that show False unfolding N_def by blast
    qed
    then show ?thesis by (auto simp add: f1_after_def)
  qed
  have c1: "\<forall>i<N. cells (f1_after N x y h) (y + i) = Some (the (cells h (x + i)) * 8)"
    by (simp add: f1_after_def push_bit_eq_mult)
  have c2: "stores (f1_after N x y h) = stores h @ map (\<lambda>i. y + i) [0..<N]"
    by (simp add: f1_after_def)
  have c3: "\<forall>i<N. cells (f1_after N x y h) (x + i) = cells h (x + i)"
    using xs by simp
  have c4: "\<forall>a. \<not> (y \<le> a \<and> a < y + N) \<longrightarrow> cells (f1_after N x y h) a = cells h a"
    by (simp add: f1_after_def)
  have c5: "sint n \<le> 0 \<longrightarrow> f1_after N x y h = h"
    by (simp add: f1_after_def N_def e)
  from c1 c2 c3 c4 c5
  have "(\<forall>i<N. cells (f1_after N x y h) (y + i) = Some (the (cells h (x + i)) * 8)) \<and>
     stores (f1_after N x y h) = stores h @ map (\<lambda>i. y + i) [0..<N] \<and>
     (\<forall>i<N. cells (f1_after N x y h) (x + i) = cells h (x + i)) \<and>
     (\<forall>a. \<not> (y \<le> a \<and> a < y + N) \<longrightarrow> cells (f1_after N x y h) a = cells h a) \<and>
     (sint n \<le> 0 \<longrightarrow> f1_after N x y h = h)"
    by blast
  with r show ?thesis unfolding N_def by blast
qed

theorem C9_f1_shifts_witness:
  "nat (sint (2 :: 32 word)) = 2 \<and>
   {10, 11, 20, 21} \<subseteq> dom (cells \<lparr>cells = [10 \<mapsto> 1, 11 \<mapsto> 0x20000000, 20 \<mapsto> 7, 21 \<mapsto> 7], stores = []\<rparr>) \<and>
   {10, 11 :: nat} \<inter> {20, 21} = {} \<and>
   (\<exists>h'. f1 2 10 20 \<lparr>cells = [10 \<mapsto> 1, 11 \<mapsto> 0x20000000, 20 \<mapsto> 7, 21 \<mapsto> 7], stores = []\<rparr> = Inr h' \<and>
      cells h' 20 = Some 8 \<and> cells h' 21 = Some 0 \<and> cells h' 11 = Some 0x20000000 \<and>
      stores h' = [20, 21])"
proof -
  let ?h = "\<lparr>cells = [10 \<mapsto> 1, 11 \<mapsto> 0x20000000, 20 \<mapsto> (7 :: 32 word), 21 \<mapsto> 7], stores = []\<rparr>"
  have two: "nat (sint (2 :: 32 word)) = 2" by simp
  have a: "\<forall>i<nat (sint (2 :: 32 word)). 10 + i \<in> dom (cells ?h) \<and> 20 + i \<in> dom (cells ?h)"
    unfolding two by (auto simp add: less_Suc_eq numeral_2_eq_2)
  have d: "\<forall>i<nat (sint (2 :: 32 word)). \<forall>j<nat (sint (2 :: 32 word)). (10 :: nat) + i \<noteq> 20 + j"
    unfolding two by (auto simp add: less_Suc_eq numeral_2_eq_2)
  from C9_f1_shifts [OF a d]
  obtain h' where h': "f1 2 10 20 ?h = Inr h'"
    "\<forall>i<nat (sint (2 :: 32 word)). cells h' (20 + i) = Some (the (cells ?h (10 + i)) * 8)"
    "stores h' = stores ?h @ map (\<lambda>i. 20 + i) [0..<nat (sint (2 :: 32 word))]"
    "\<forall>i<nat (sint (2 :: 32 word)). cells h' (10 + i) = cells ?h (10 + i)"
    by blast
  have "cells h' (20 + 0) = Some (the (cells ?h (10 + 0)) * 8)"
    by (rule h'(2) [unfolded two, rule_format]) simp
  moreover have "cells h' (20 + 1) = Some (the (cells ?h (10 + 1)) * 8)"
    by (rule h'(2) [unfolded two, rule_format]) simp
  ultimately have c: "cells h' 20 = Some 8" "cells h' 21 = Some 0" by simp_all
  have "cells h' (10 + 1) = cells ?h (10 + 1)"
    by (rule h'(4) [unfolded two, rule_format]) simp
  then have x: "cells h' 11 = Some 0x20000000" by simp
  have s: "stores h' = [20, 21]"
    using h'(3) unfolding two by (simp add: numeral_2_eq_2)
  have "{10, 11, 20, 21} \<subseteq> dom (cells ?h)" by simp
  moreover have "{10, 11 :: nat} \<inter> {20, 21} = {}" by simp
  ultimately show ?thesis using two h'(1) c x s by blast
qed

text \<open>
  C9 for any two arrays does not hold: \<open>x\<close> and \<open>y\<close> may be the same array. Called
  as \<open>f1(2, c, c)\<close> on the cells 1 and 2, the function stores to both cells of \<open>x\<close>,
  which end as 8 and 16.
\<close>

theorem C9_aliasing_counterexample:
  "f1 2 10 10 \<lparr>cells = [10 \<mapsto> 1, 11 \<mapsto> 2], stores = []\<rparr> =
     Inr \<lparr>cells = [10 \<mapsto> 8, 11 \<mapsto> 16], stores = [10, 11]\<rparr>"
  by (simp add: f1_def f1_loop.simps load_int_def store_int_def fun_upd_twist)

section \<open>The loop of \<open>test_func_00\<close>\<close>

termination test_func_00_loop
  by (relation "measure (\<lambda>(fadd, p, r, i, c). length p - i)") auto

declare test_func_00_loop.simps [simp del]

lemma sint_pred: "sint (c :: 32 word) \<noteq> - (2 ^ 31) \<Longrightarrow> sint (c - 1) = sint c - 1"
proof -
  assume "sint c \<noteq> - (2 ^ 31)"
  moreover have "sint c < 2 ^ 31" using sint_lt [of c] by simp
  moreover have "- (2 ^ 31) \<le> sint c" using sint_ge [of c] by simp
  ultimately have "- (2 ^ 31) \<le> sint c - 1 \<and> sint c - 1 < 2 ^ 31" by simp
  then show ?thesis
    by (simp add: sint_word_ariths signed_take_bit_int_eq_self)
qed

lemma word_pred_zero: "(c :: 32 word) - 1 = 0 \<longleftrightarrow> sint c = 1"
proof
  assume "c - 1 = 0"
  then have "c = 1" by simp
  then show "sint c = 1" by simp
next
  assume "sint c = 1"
  then have "sint c = sint (1 :: 32 word)" by simp
  then have "c = 1" by (rule signed_word_eqI)
  then show "c - 1 = 0" by simp
qed

lemma word_one_iff: "(c :: 32 word) = 1 \<longleftrightarrow> sint c = 1"
  using word_pred_zero [of c] by simp

lemma test_func_00_loop_counts:
  "k = nat (sint c) \<Longrightarrow> 1 \<le> sint c \<Longrightarrow>
   test_func_00_loop fadd p r i c =
     (if i + k \<le> length p then Inr (foldl fadd r (take k (drop i p)), i + k, 0)
      else Inl Out_of_bounds)"
proof (induction k arbitrary: c r i)
  case 0
  then show ?case by simp
next
  case (Suc k)
  have nmin: "sint c \<noteq> - (2 ^ 31)" using Suc.prems by simp
  note sp = sint_pred [OF nmin]
  show ?case
  proof (cases "length p \<le> i")
    case True
    then show ?thesis by (subst test_func_00_loop.simps) simp
  next
    case False
    then have dr: "drop i p = p ! i # drop (Suc i) p" by (simp add: Cons_nth_drop_Suc)
    show ?thesis
    proof (cases "sint c = 1")
      case True
      then have "k = 0" and "c - 1 = 0" using Suc.prems by (simp_all add: word_one_iff)
      then show ?thesis
        using False nmin by (subst test_func_00_loop.simps) (simp add: Let_def dr)
    next
      case False
      then have nz: "c - 1 \<noteq> 0" by (simp add: word_one_iff)
      have k: "k = nat (sint (c - 1))" and c1: "1 \<le> sint (c - 1)"
        using Suc.prems False by (simp_all add: sp)
      have "test_func_00_loop fadd p r i c =
              test_func_00_loop fadd p (fadd r (p ! i)) (i + 1) (c - 1)"
        using \<open>\<not> length p \<le> i\<close> nmin nz
        by (subst test_func_00_loop.simps) (simp add: Let_def)
      also note Suc.IH [OF k c1]
      finally show ?thesis by (simp add: dr)
    qed
  qed
qed

lemma test_func_00_loop_nonpositive:
  "sint c \<le> 0 \<Longrightarrow> \<exists>e. test_func_00_loop fadd p r i c = Inl e"
proof (induction "length p - i" arbitrary: c r i)
  case 0
  then show ?case by (subst test_func_00_loop.simps) simp
next
  case (Suc d)
  show ?case
  proof (cases "length p \<le> i \<or> sint c = - (2 ^ 31)")
    case True
    then show ?thesis by (subst test_func_00_loop.simps) (auto simp add: Let_def)
  next
    case False
    then have nmin: "sint c \<noteq> - (2 ^ 31)" and i: "\<not> length p \<le> i" by simp_all
    have sc: "sint (c - 1) \<le> 0" using Suc.prems by (simp add: sint_pred [OF nmin])
    have nz: "c - 1 \<noteq> 0" using Suc.prems by (simp add: word_one_iff)
    have d: "d = length p - (i + 1)" using Suc.hyps(2) by simp
    have "test_func_00_loop fadd p r i c =
            test_func_00_loop fadd p (fadd r (p ! i)) (i + 1) (c - 1)"
      using i nmin nz by (subst test_func_00_loop.simps) (simp add: Let_def)
    with Suc.hyps(1) [OF d sc] show ?thesis by simp
  qed
qed

text \<open>
  C10: for \<open>c \<ge> 1\<close> and an array of at least \<open>c\<close> floats, \<open>test_func_00\<close> runs its
  body exactly \<open>c\<close> times (the pointer ends \<open>c\<close> elements on, the counter at zero) and
  returns the sum, taken left to right from the initial \<open>r = 0\<close>, of the first \<open>c\<close>
  elements; the addition of floats is a parameter. The body runs before the counter is
  looked at: on an empty array the dereference is out of bounds whatever \<open>c\<close> is, and
  with \<open>c = 0\<close> the first element is added and the loop goes on with \<open>c = -1\<close>. The
  loop is only left with the counter at zero, which needs \<open>c \<ge> 1\<close>.
\<close>

theorem C10_test_func_00:
  "(1 \<le> sint c \<and> nat (sint c) \<le> length p \<longrightarrow>
      test_func_00_loop fadd p zero 0 c =
        Inr (foldl fadd zero (take (nat (sint c)) p), nat (sint c), 0) \<and>
      test_func_00 fadd zero p c = Inr (foldl fadd zero (take (nat (sint c)) p))) \<and>
   test_func_00 fadd zero [] c = Inl Out_of_bounds \<and>
   test_func_00_loop fadd (x # xs) zero 0 0 =
     test_func_00_loop fadd (x # xs) (fadd zero x) 1 (- 1) \<and>
   (test_func_00_loop fadd p zero 0 c = Inr (r, i, c') \<longrightarrow>
      c' = 0 \<and> 1 \<le> sint c \<and> i = nat (sint c) \<and> i \<le> length p)"
proof (intro conjI impI)
  assume h: "1 \<le> sint c \<and> nat (sint c) \<le> length p"
  then have c1: "1 \<le> sint c" by simp
  from test_func_00_loop_counts [OF refl c1, of fadd p zero 0] h
  show l: "test_func_00_loop fadd p zero 0 c =
        Inr (foldl fadd zero (take (nat (sint c)) p), nat (sint c), 0)"
    by simp
  show "test_func_00 fadd zero p c = Inr (foldl fadd zero (take (nat (sint c)) p))"
    by (simp add: test_func_00_def l)
next
  show "test_func_00 fadd zero [] c = Inl Out_of_bounds"
    unfolding test_func_00_def by (subst test_func_00_loop.simps) simp
next
  show "test_func_00_loop fadd (x # xs) zero 0 0 =
     test_func_00_loop fadd (x # xs) (fadd zero x) 1 (- 1)"
    by (subst test_func_00_loop.simps) (simp add: Let_def)
next
  assume r: "test_func_00_loop fadd p zero 0 c = Inr (r, i, c')"
  have c1: "1 \<le> sint c"
  proof (rule ccontr)
    assume "\<not> 1 \<le> sint c"
    then have "sint c \<le> 0" by simp
    from test_func_00_loop_nonpositive [OF this, of fadd p zero 0] r show False by auto
  qed
  from test_func_00_loop_counts [OF refl c1, of fadd p zero 0] r
  have "c' = 0 \<and> i = nat (sint c) \<and> i \<le> length p"
    by (auto split: if_splits)
  then show "c' = 0" "1 \<le> sint c" "i = nat (sint c)" "i \<le> length p"
    using c1 by simp_all
qed

theorem C10_test_func_00_witness:
  "(1 \<le> sint (2 :: 32 word) \<and> nat (sint (2 :: 32 word)) \<le> length [10, 20, 30 :: int]) \<and>
   test_func_00_loop (+) [10, 20, 30 :: int] 0 0 2 = Inr (30, 2, 0) \<and>
   test_func_00 (+) 0 [10, 20, 30 :: int] 2 = Inr 30 \<and>
   (0 :: 32 word) = 0 \<and> 1 \<le> sint (2 :: 32 word) \<and> (2 :: nat) = nat (sint (2 :: 32 word))"
  using C10_test_func_00 [of 2 "[10, 20, 30 :: int]" "(+)" 0 0 "[]" 30 2 0]
  by (simp add: numeral_2_eq_2)

end
